theory Spec2Isabelle
  imports Main
begin

section \<open>Cats vs. Homework: the simulation engine\<close>

text \<open>
  A shallow embedding of \<^verbatim>\<open>src/managers.py\<close>, \<^verbatim>\<open>src/cats.py\<close> and
  \<^verbatim>\<open>src/contraptions.py\<close>. Python objects are records in explicit stores, references
  are indices into those stores, every mutation returns the updated game, and every
  \<^verbatim>\<open>assert\<close>, attribute access on \<^verbatim>\<open>None\<close> and \<^verbatim>\<open>list.remove\<close> of an absent
  element is an error value. The Tk widgets (buttons, labels, images) are left out; the
  assertions of the label updates are kept.
\<close>

subsection \<open>Constants and errors\<close>

definition LANE_WIDTH :: nat where
  "LANE_WIDTH = 8"

definition STARTING_BATTERIES :: int where
  "STARTING_BATTERIES = 8"

definition WIN_ROUND :: int where
  "WIN_ROUND = 40"

datatype error = AssertionError | AttributeError | ValueError

text \<open>Sequencing of two fallible steps: an exception of the first skips the second.\<close>

definition and_then :: "error + 'a \<Rightarrow> ('a \<Rightarrow> error + 'b) \<Rightarrow> error + 'b" where
  "and_then m f = (case m of Inl e \<Rightarrow> Inl e | Inr x \<Rightarrow> f x)"

subsection \<open>The tile grid (\<^verbatim>\<open>Board.__init__\<close>, \<^verbatim>\<open>Tile\<close>)\<close>

text \<open>
  \<^verbatim>\<open>Board.__init__\<close> builds, for every row, the tile of column 0 with no exit and then
  the tiles of columns 1 to 7, each with the previous tile as its exit (the constructor
  back-patches \<^verbatim>\<open>exit._entrance\<close> and \<^verbatim>\<open>above._below\<close>); the last tile built is
  the lane's entrance. The links never change afterwards, so a tile is named by its
  (row, column) pair and the four accessors are computed from it.
\<close>

type_synonym tile = "nat \<times> nat"

fun exit :: "tile \<Rightarrow> tile option" where
  "exit (r, c) = (if c = 0 then None else Some (r, c - 1))"

fun entrance :: "tile \<Rightarrow> tile option" where
  "entrance (r, c) = (if Suc c < LANE_WIDTH then Some (r, Suc c) else None)"

fun above :: "tile \<Rightarrow> tile option" where
  "above (r, c) = (if r = 0 then None else Some (r - 1, c))"

fun below :: "nat \<Rightarrow> tile \<Rightarrow> tile option" where
  "below n (r, c) = (if Suc r < n then Some (Suc r, c) else None)"

definition get_lane_entrance :: "nat \<Rightarrow> tile" where
  "get_lane_entrance index = (index, LANE_WIDTH - 1)"

subsection \<open>Actors and the game state\<close>

datatype cat_kind = Tabby | Calico | Kitten

datatype con_kind =
  LaserPointer | SnackDispenser | BatteryCharger | BallThrower
  | TripleLaserPointer | ColorfulBallThrower | SpaceHeater

record cat =
  kind :: cat_kind
  starting_attention :: int
  attention :: int
  needed_rest_time :: int
  rest_time :: int
  cat_tile :: "tile option"

record contraption =
  ckind :: con_kind
  cost :: int
  con_tile :: "tile option"
  uses :: int
  ready :: bool

text \<open>
  A reference to an actor. A cat is its index in \<^verbatim>\<open>GameManager._cats\<close>, a contraption
  its index in the store of all contraptions built so far (\<open>heap\<close>), a
  \<^verbatim>\<open>ColorfulBall\<close> its index in the store of all balls built so far (\<open>balls\<close>). The
  only field of a ball that matters is its \<^verbatim>\<open>_tile\<close>; a ball stays in the store, with
  whatever \<^verbatim>\<open>_tile\<close> it has, when no tile holds it any more.
\<close>

datatype actor = ACat nat | ACon nat | ABall nat

record game =
  lane_count :: nat
  board :: "tile \<Rightarrow> actor option"
  cats :: "cat list"
  heap :: "contraption list"
  balls :: "tile option list"
  contraptions :: "nat list"
  batteries :: int
  rounds :: int
  game_ended :: bool
  initialized :: bool
  selected :: "con_kind option"
  printed :: "string list"

text \<open>\<^verbatim>\<open>GameManager.manager()\<close>: asserts that the singleton exists.\<close>

definition manager :: "game \<Rightarrow> error + game" where
  "manager s = (if initialized s then Inr s else Inl AssertionError)"

subsection \<open>\<^verbatim>\<open>Tile\<close> and \<^verbatim>\<open>Actor\<close>\<close>

definition is_empty :: "game \<Rightarrow> tile \<Rightarrow> bool" where
  "is_empty s t = (board s t = None)"

definition set_actor :: "tile \<Rightarrow> actor \<Rightarrow> game \<Rightarrow> error + game" where
  "set_actor t a s =
     (if \<not> is_empty s t then Inl AssertionError
      else Inr (s\<lparr>board := (board s)(t := Some a)\<rparr>))"

definition clear_actor :: "tile \<Rightarrow> game \<Rightarrow> error + game" where
  "clear_actor t s =
     (if is_empty s t then Inl AssertionError
      else and_then (manager (s\<lparr>board := (board s)(t := None)\<rparr>)) Inr)"

definition cat_is_on_board :: "game \<Rightarrow> nat \<Rightarrow> bool" where
  "cat_is_on_board s i = (cat_tile (cats s ! i) \<noteq> None)"

text \<open>Assignment to fields of the cat \<open>i\<close> and of the contraption \<open>j\<close>.\<close>

definition upd_cat :: "nat \<Rightarrow> (cat \<Rightarrow> cat) \<Rightarrow> game \<Rightarrow> game" where
  "upd_cat i f s = s\<lparr>cats := (cats s)[i := f (cats s ! i)]\<rparr>"

definition upd_con :: "nat \<Rightarrow> (contraption \<Rightarrow> contraption) \<Rightarrow> game \<Rightarrow> game" where
  "upd_con j f s = s\<lparr>heap := (heap s)[j := f (heap s ! j)]\<rparr>"

definition set_cat_tile :: "nat \<Rightarrow> tile option \<Rightarrow> game \<Rightarrow> game" where
  "set_cat_tile i t s = upd_cat i (\<lambda>c. c\<lparr>cat_tile := t\<rparr>) s"

definition set_con_tile :: "nat \<Rightarrow> tile option \<Rightarrow> game \<Rightarrow> game" where
  "set_con_tile j t s = upd_con j (\<lambda>d. d\<lparr>con_tile := t\<rparr>) s"

text \<open>\<^verbatim>\<open>Actor.remove_from_board\<close> of a cat: \<^verbatim>\<open>self._tile.clear_actor()\<close> fails on None.\<close>

definition cat_remove_from_board :: "nat \<Rightarrow> game \<Rightarrow> error + game" where
  "cat_remove_from_board i s =
     (case cat_tile (cats s ! i) of
        None \<Rightarrow> Inl AttributeError
      | Some t \<Rightarrow> and_then (clear_actor t s) (\<lambda>s1. Inr (set_cat_tile i None s1)))"

text \<open>\<^verbatim>\<open>Actor.teleport\<close>, for a cat and for a contraption.\<close>

definition cat_teleport :: "nat \<Rightarrow> tile \<Rightarrow> game \<Rightarrow> error + game" where
  "cat_teleport i t s =
     and_then (case cat_tile (cats s ! i) of None \<Rightarrow> Inr s | Some old \<Rightarrow> clear_actor old s)
       (\<lambda>s1. set_actor t (ACat i) (set_cat_tile i (Some t) s1))"

definition con_teleport :: "nat \<Rightarrow> tile \<Rightarrow> game \<Rightarrow> error + game" where
  "con_teleport j t s =
     and_then (case con_tile (heap s ! j) of None \<Rightarrow> Inr s | Some old \<Rightarrow> clear_actor old s)
       (\<lambda>s1. set_actor t (ACon j) (set_con_tile j (Some t) s1))"

text \<open>
  \<^verbatim>\<open>ColorfulBall()\<close> followed by \<^verbatim>\<open>teleport\<close>: the constructor reads the image from
  the manager and sets \<^verbatim>\<open>_tile\<close> to None; the new ball is off the board, so teleport
  only sets its \<^verbatim>\<open>_tile\<close> and attaches it to the tile.
\<close>

definition new_ball_teleport :: "tile \<Rightarrow> game \<Rightarrow> error + game" where
  "new_ball_teleport t s =
     and_then (manager s) (\<lambda>s0.
       let b = length (balls s0);
           s1 = s0\<lparr>balls := balls s0 @ [None]\<rparr>;
           s2 = s1\<lparr>balls := (balls s1)[b := Some t]\<rparr>
       in set_actor t (ABall b) s2)"

subsection \<open>\<^verbatim>\<open>GameManager\<close>: batteries, registry, end of the game\<close>

definition update_battery_text :: "game \<Rightarrow> error + game" where
  "update_battery_text s = (if batteries s \<ge> 0 then Inr s else Inl AssertionError)"

definition spend_batteries :: "int \<Rightarrow> game \<Rightarrow> error + game" where
  "spend_batteries amount s =
     (if \<not> (amount \<ge> 0 \<and> batteries s \<ge> amount) then Inl AssertionError
      else update_battery_text (s\<lparr>batteries := batteries s - amount\<rparr>))"

definition add_batteries :: "int \<Rightarrow> game \<Rightarrow> error + game" where
  "add_batteries amount s =
     (if \<not> amount \<ge> 0 then Inl AssertionError
      else update_battery_text (s\<lparr>batteries := batteries s + amount\<rparr>))"

definition add_contraption :: "nat \<Rightarrow> game \<Rightarrow> game" where
  "add_contraption j s = s\<lparr>contraptions := contraptions s @ [j]\<rparr>"

definition remove_contraption :: "nat \<Rightarrow> game \<Rightarrow> error + game" where
  "remove_contraption j s =
     (if j \<in> set (contraptions s) then Inr (s\<lparr>contraptions := remove1 j (contraptions s)\<rparr>)
      else Inl ValueError)"

definition destroy :: "game \<Rightarrow> error + game" where
  "destroy s =
     (if \<not> initialized s then Inl AssertionError
      else Inr (s\<lparr>game_ended := True, initialized := False\<rparr>))"

definition lose_game :: "game \<Rightarrow> error + game" where
  "lose_game s = destroy (s\<lparr>printed := printed s @ [''You lose!'']\<rparr>)"

definition win_game :: "game \<Rightarrow> error + game" where
  "win_game s = destroy (s\<lparr>printed := printed s @ [''You win!'']\<rparr>)"

definition increment_round :: "game \<Rightarrow> error + game" where
  "increment_round s =
     (let s1 = s\<lparr>rounds := rounds s + 1\<rparr> in
      if \<not> rounds s1 \<ge> 0 then Inl AssertionError
      else if rounds s1 \<ge> WIN_ROUND then win_game s1
      else Inr s1)"

subsection \<open>Cats: distraction and the passive-range check (\<^verbatim>\<open>cats.py\<close>)\<close>

text \<open>\<^verbatim>\<open>Cat.distract\<close>.\<close>

definition Cat_distract :: "nat \<Rightarrow> int \<Rightarrow> game \<Rightarrow> error + game" where
  "Cat_distract i amount s =
     (if \<not> amount \<ge> 0 then Inl AssertionError
      else
        let s1 = upd_cat i (\<lambda>c. c\<lparr>attention := attention c - amount\<rparr>) s in
        if attention (cats s1 ! i) \<le> 0
        then cat_remove_from_board i
               (upd_cat i (\<lambda>c. c\<lparr>attention := 0, rest_time := needed_rest_time c\<rparr>) s1)
        else Inr s1)"

text \<open>
  \<^verbatim>\<open>distract\<close> as dispatched on the class: \<^verbatim>\<open>Calico.distract\<close> runs the base method
  and then, if still on the board, moves to the tile above when that exists and is empty.
\<close>

definition distract :: "nat \<Rightarrow> int \<Rightarrow> game \<Rightarrow> error + game" where
  "distract i amount s =
     (if kind (cats s ! i) = Calico then
        and_then (Cat_distract i amount s) (\<lambda>s1.
          case cat_tile (cats s1 ! i) of
            None \<Rightarrow> Inr s1
          | Some t \<Rightarrow>
              (case above t of
                 None \<Rightarrow> Inr s1
               | Some tile_above \<Rightarrow>
                   if is_empty s1 tile_above then cat_teleport i tile_above s1 else Inr s1))
      else Cat_distract i amount s)"

text \<open>\<^verbatim>\<open>t and isinstance(t.actor(), SpaceHeater)\<close> for an optional tile \<open>t\<close>.\<close>

definition holds_heater :: "game \<Rightarrow> tile option \<Rightarrow> bool" where
  "holds_heater s topt =
     (case topt of
        None \<Rightarrow> False
      | Some t \<Rightarrow>
          (case board s t of
             Some (ACon j) \<Rightarrow> ckind (heap s ! j) = SpaceHeater
           | _ \<Rightarrow> False))"

text \<open>
  The inner loop of \<^verbatim>\<open>_check_space_heater\<close>:
  \<^verbatim>\<open>for j in range(i): if t is None: break; t = t.entrance()\<close> (or \<^verbatim>\<open>t.exit()\<close>).
\<close>

fun walk :: "(tile \<Rightarrow> tile option) \<Rightarrow> nat \<Rightarrow> tile option \<Rightarrow> tile option" where
  "walk step 0 t = t"
| "walk step (Suc n) None = None"
| "walk step (Suc n) (Some t) = walk step n (step t)"

text \<open>
  The three tests made on a tile of an adjacent lane: the tile itself, its entrance and
  its exit. Each of them ends in \<^verbatim>\<open>self.distract(1); return\<close>.
\<close>

definition heater_in_lane :: "game \<Rightarrow> tile \<Rightarrow> bool" where
  "heater_in_lane s t =
     (holds_heater s (Some t) \<or> holds_heater s (entrance t) \<or> holds_heater s (exit t))"

text \<open>
  \<^verbatim>\<open>Cat._check_space_heater\<close>. The two loops over the own lane tolerate a cat whose
  \<^verbatim>\<open>_tile\<close> is None; \<^verbatim>\<open>self._tile.above()\<close> does not.
\<close>

definition check_space_heater :: "nat \<Rightarrow> game \<Rightarrow> error + game" where
  "check_space_heater i s =
     (let tl = cat_tile (cats s ! i) in
      if holds_heater s (walk entrance (Suc 0) tl) \<or> holds_heater s (walk entrance (Suc (Suc 0)) tl)
      then distract i 1 s
      else if holds_heater s (walk exit (Suc 0) tl) \<or> holds_heater s (walk exit (Suc (Suc 0)) tl)
      then distract i 1 s
      else
        (case tl of
           None \<Rightarrow> Inl AttributeError
         | Some t \<Rightarrow>
             if (case above t of None \<Rightarrow> False | Some ta \<Rightarrow> heater_in_lane s ta)
             then distract i 1 s
             else if (case below (lane_count s) t of None \<Rightarrow> False | Some tb \<Rightarrow> heater_in_lane s tb)
             then distract i 1 s
             else Inr s))"

subsection \<open>Contraptions (\<^verbatim>\<open>contraptions.py\<close>)\<close>

definition cost_of :: "con_kind \<Rightarrow> int" where
  "cost_of k =
     (case k of
        LaserPointer \<Rightarrow> 7 | SnackDispenser \<Rightarrow> 4 | BatteryCharger \<Rightarrow> 3 | BallThrower \<Rightarrow> 3
      | TripleLaserPointer \<Rightarrow> 12 | ColorfulBallThrower \<Rightarrow> 5 | SpaceHeater \<Rightarrow> 4)"

text \<open>
  The constructors. Only a \<^verbatim>\<open>SnackDispenser\<close> has \<^verbatim>\<open>_uses\<close> and only a
  \<^verbatim>\<open>BatteryCharger\<close> has \<^verbatim>\<open>_ready\<close>; the fields of the other kinds are never read.
\<close>

definition new_contraption :: "con_kind \<Rightarrow> contraption" where
  "new_contraption k =
     \<lparr>ckind = k, cost = cost_of k, con_tile = None,
      uses = (if k = SnackDispenser then 5 else 0), ready = False\<rparr>"

text \<open>\<^verbatim>\<open>Contraption.place\<close>.\<close>

definition place :: "nat \<Rightarrow> tile \<Rightarrow> game \<Rightarrow> error + game" where
  "place j t s = and_then (manager s) (\<lambda>s0. con_teleport j t (add_contraption j s0))"

text \<open>\<^verbatim>\<open>Contraption.interact\<close>: \<^verbatim>\<open>self.tile()\<close> asserts that the contraption is on the board.\<close>

definition Contraption_interact :: "nat \<Rightarrow> game \<Rightarrow> error + game" where
  "Contraption_interact j s =
     (case con_tile (heap s ! j) of
        None \<Rightarrow> Inl AssertionError
      | Some t \<Rightarrow>
          and_then (clear_actor t s) (\<lambda>s1.
            and_then (manager (set_con_tile j None s1)) (remove_contraption j)))"

text \<open>\<^verbatim>\<open>interact\<close> as dispatched on the class: only \<^verbatim>\<open>SnackDispenser\<close> overrides it.\<close>

definition interact :: "nat \<Rightarrow> game \<Rightarrow> error + game" where
  "interact j s =
     (if ckind (heap s ! j) = SnackDispenser then
        (let s1 = upd_con j (\<lambda>d. d\<lparr>uses := uses d - 1\<rparr>) s in
         if uses (heap s1 ! j) = 0 then Contraption_interact j s1 else Inr s1)
      else Contraption_interact j s)"

text \<open>
  The loop of \<^verbatim>\<open>LaserPointer.end_round\<close> and of \<^verbatim>\<open>TripleLaserPointer._shoot_laser\<close>,
  started at the entrance of the given tile.
\<close>

function shoot_laser :: "tile option \<Rightarrow> game \<Rightarrow> error + game" where
  "shoot_laser None s = Inr s"
| "shoot_laser (Some t) s =
     (case board s t of
        Some (ACat i) \<Rightarrow> distract i 1 s
      | _ \<Rightarrow> shoot_laser (entrance t) s)"
  by pat_completeness auto
termination
  by (relation "measure (\<lambda>(topt, s). case topt of None \<Rightarrow> 0 | Some (r, c) \<Rightarrow> Suc (LANE_WIDTH - c))")
     (auto split: if_splits)

text \<open>The loop of \<^verbatim>\<open>BallThrower.end_round\<close>.\<close>

function throw_ball :: "tile option \<Rightarrow> nat \<Rightarrow> game \<Rightarrow> error + game" where
  "throw_ball current tiles_checked s =
     (case current of
        None \<Rightarrow> Inr s
      | Some t \<Rightarrow>
          if tiles_checked < 3 then
            (case board s t of
               Some (ACat i) \<Rightarrow> distract i 1 s
             | _ \<Rightarrow> throw_ball (entrance t) (tiles_checked + 1) s)
          else Inr s)"
  by pat_completeness auto
termination
  by (relation "measure (\<lambda>(current, tiles_checked, s). 3 - tiles_checked)") auto

text \<open>
  The two loops of \<^verbatim>\<open>ColorfulBallThrower.end_round\<close>: the first looks for a cat within
  three tiles, the second for the furthest empty tile within three tiles.
\<close>

function find_cat :: "tile option \<Rightarrow> nat \<Rightarrow> game \<Rightarrow> nat option" where
  "find_cat tile count' s =
     (case tile of
        None \<Rightarrow> None
      | Some t \<Rightarrow>
          if count' < 3 then
            (case board s t of
               Some (ACat i) \<Rightarrow> Some i
             | _ \<Rightarrow> find_cat (entrance t) (count' + 1) s)
          else None)"
  by pat_completeness auto
termination
  by (relation "measure (\<lambda>(tile, count', s). 3 - count')") auto

function find_last_empty :: "tile option \<Rightarrow> nat \<Rightarrow> tile option \<Rightarrow> game \<Rightarrow> tile option" where
  "find_last_empty tile count' last_empty s =
     (case tile of
        None \<Rightarrow> last_empty
      | Some t \<Rightarrow>
          if count' < 3 then
            find_last_empty (entrance t) (count' + 1)
              (if is_empty s t then Some t else last_empty) s
          else last_empty)"
  by pat_completeness auto
termination
  by (relation "measure (\<lambda>(tile, count', last_empty, s). 3 - count')") auto

text \<open>
  \<^verbatim>\<open>end_round\<close> of a contraption, as dispatched on the class. Every scanner starts with
  \<^verbatim>\<open>self._tile.entrance()\<close>, which fails when the contraption is off the board. No scan
  changes a contraption's tile, so \<^verbatim>\<open>self._tile\<close> is read once.
\<close>

definition con_end_round :: "nat \<Rightarrow> game \<Rightarrow> error + game" where
  "con_end_round j s =
     (case ckind (heap s ! j) of
        LaserPointer \<Rightarrow>
          (case con_tile (heap s ! j) of
             None \<Rightarrow> Inl AttributeError
           | Some t \<Rightarrow> shoot_laser (entrance t) s)
      | SnackDispenser \<Rightarrow> Inr s
      | BatteryCharger \<Rightarrow>
          and_then
            (if ready (heap s ! j)
             then and_then (manager s) (\<lambda>s0. update_battery_text (s0\<lparr>batteries := batteries s0 + 1\<rparr>))
             else Inr s)
            (\<lambda>s1. Inr (upd_con j (\<lambda>d. d\<lparr>ready := \<not> ready d\<rparr>) s1))
      | BallThrower \<Rightarrow>
          (case con_tile (heap s ! j) of
             None \<Rightarrow> Inl AttributeError
           | Some t \<Rightarrow> throw_ball (entrance t) 0 s)
      | TripleLaserPointer \<Rightarrow>
          (case con_tile (heap s ! j) of
             None \<Rightarrow> Inl AttributeError
           | Some t \<Rightarrow>
               and_then (shoot_laser (entrance t) s) (\<lambda>s1.
                 and_then
                   (case above t of None \<Rightarrow> Inr s1 | Some ta \<Rightarrow> shoot_laser (entrance ta) s1)
                   (\<lambda>s2. case below (lane_count s2) t of
                            None \<Rightarrow> Inr s2
                          | Some tb \<Rightarrow> shoot_laser (entrance tb) s2)))
      | ColorfulBallThrower \<Rightarrow>
          (case con_tile (heap s ! j) of
             None \<Rightarrow> Inl AttributeError
           | Some t \<Rightarrow>
               (case find_cat (entrance t) 0 s of
                  Some i \<Rightarrow> distract i 1 s
                | None \<Rightarrow>
                    (case find_last_empty (entrance t) 0 None s of
                       None \<Rightarrow> Inr s
                     | Some last_empty \<Rightarrow> new_ball_teleport last_empty s)))
      | SpaceHeater \<Rightarrow> Inr s)"

subsection \<open>Cats: moving and resting\<close>

definition is_ball :: "actor option \<Rightarrow> bool" where
  "is_ball a = (case a of Some (ABall _) \<Rightarrow> True | _ \<Rightarrow> False)"

text \<open>
  \<^verbatim>\<open>Cat.move\<close>: \<^verbatim>\<open>self.tile()\<close> asserts that the cat is on the board. The pickup
  is \<^verbatim>\<open>next_spot.clear_actor()\<close>, which empties the tile and leaves the ball's own
  \<^verbatim>\<open>_tile\<close> as it is.
\<close>

definition move :: "nat \<Rightarrow> game \<Rightarrow> error + game" where
  "move i s =
     (case cat_tile (cats s ! i) of
        None \<Rightarrow> Inl AssertionError
      | Some t \<Rightarrow>
          (case exit t of
             None \<Rightarrow> and_then (manager s) lose_game
           | Some next_spot \<Rightarrow>
               if is_ball (board s next_spot) then
                 and_then (clear_actor next_spot s) (\<lambda>s1.
                   and_then (cat_teleport i next_spot s1) (\<lambda>s2.
                     and_then (distract i 1 s2) (check_space_heater i)))
               else if is_empty s next_spot then
                 and_then (cat_teleport i next_spot s) (check_space_heater i)
               else
                 (case board s next_spot of
                    Some (ACon j) \<Rightarrow> interact j s
                  | _ \<Rightarrow> Inr s)))"

text \<open>
  \<^verbatim>\<open>Cat.rest\<close>. The draw of \<^verbatim>\<open>random.randint(0, len(empty_lanes)-1)\<close> is the
  parameter \<open>draw\<close>, reduced into that range.
\<close>

definition rest :: "nat \<Rightarrow> nat \<Rightarrow> game \<Rightarrow> error + game" where
  "rest i draw s =
     (let s1 = upd_cat i (\<lambda>c. c\<lparr>rest_time := rest_time c - 1\<rparr>) s in
      if rest_time (cats s1 ! i) = 0 then
        and_then (manager s1) (\<lambda>s2.
          let empty_lanes = filter (is_empty s2) (map get_lane_entrance [0..<lane_count s2]) in
          if length empty_lanes = 0 then Inr (upd_cat i (\<lambda>c. c\<lparr>rest_time := 1\<rparr>) s2)
          else
            let lane_to_add = empty_lanes ! (draw mod length empty_lanes) in
            cat_teleport i lane_to_add
              (upd_cat i (\<lambda>c. c\<lparr>attention := starting_attention c\<rparr>) s2))
      else Inr s1)"

text \<open>\<^verbatim>\<open>end_round\<close> of a cat, as dispatched on the class: \<^verbatim>\<open>Kitten\<close> overrides it.\<close>

definition cat_end_round :: "nat \<Rightarrow> nat \<Rightarrow> game \<Rightarrow> error + game" where
  "cat_end_round i draw s =
     (if kind (cats s ! i) = Kitten then
        (if cat_is_on_board s i then
           and_then (move i s) (\<lambda>s1. if cat_is_on_board s1 i then move i s1 else Inr s1)
         else rest i draw s)
      else
        (if cat_is_on_board s i then move i s else rest i draw s))"

subsection \<open>The round and the placement (\<^verbatim>\<open>GameManager.end_round\<close>, \<^verbatim>\<open>Tile._clicked\<close>)\<close>

text \<open>
  \<^verbatim>\<open>for contraption in self._contraptions: contraption.end_round()\<close>. No
  \<^verbatim>\<open>end_round\<close> of a contraption adds to or removes from the registry, so the loop
  runs over the registry as it is when the loop starts.
\<close>

fun contraptions_loop :: "nat list \<Rightarrow> game \<Rightarrow> error + game" where
  "contraptions_loop [] s = Inr s"
| "contraptions_loop (j # js) s = and_then (con_end_round j s) (contraptions_loop js)"

text \<open>
  The loop over \<^verbatim>\<open>self._cats\<close> together with what follows it in
  \<^verbatim>\<open>GameManager.end_round\<close>: the \<^verbatim>\<open>return\<close> inside the loop leaves the method, and
  a loop that runs to its end is followed by \<^verbatim>\<open>increment_round\<close>. The list of cats
  never changes; \<open>draw i\<close> is the random draw of cat \<open>i\<close> in this round.
\<close>

fun cats_loop :: "(nat \<Rightarrow> nat) \<Rightarrow> nat list \<Rightarrow> game \<Rightarrow> error + game" where
  "cats_loop draw [] s = increment_round s"
| "cats_loop draw (i # is) s =
     and_then (cat_end_round i (draw i) s) (\<lambda>s1.
       if game_ended s1 then Inr s1 else cats_loop draw is s1)"

definition end_round :: "(nat \<Rightarrow> nat) \<Rightarrow> game \<Rightarrow> error + game" where
  "end_round draw s =
     and_then (add_batteries 1 s) (\<lambda>s1.
       and_then (contraptions_loop (contraptions s1) s1) (\<lambda>s2.
         cats_loop draw [0..<length (cats s2)] s2))"

text \<open>
  \<^verbatim>\<open>SelectionManager.set_current_selector\<close> and \<^verbatim>\<open>_end_turn_clicked\<close>: the selector
  is known by the kind of contraption it builds.
\<close>

definition set_current_selector :: "con_kind \<Rightarrow> game \<Rightarrow> error + game" where
  "set_current_selector k s = and_then (manager s) (\<lambda>s0. Inr (s0\<lparr>selected := Some k\<rparr>))"

definition end_turn_clicked :: "(nat \<Rightarrow> nat) \<Rightarrow> game \<Rightarrow> error + game" where
  "end_turn_clicked draw s = and_then (manager (s\<lparr>selected := None\<rparr>)) (end_round draw)"

text \<open>
  \<^verbatim>\<open>Tile._clicked\<close> on the tile \<open>t\<close>. The new contraption is stored at the next free
  index; \<^verbatim>\<open>selected.cost()\<close> is the cost of the selector's own instance of the kind.
\<close>

definition clicked :: "tile \<Rightarrow> game \<Rightarrow> error + game" where
  "clicked t s =
     and_then (manager s) (\<lambda>s0.
       case selected s0 of
         None \<Rightarrow> Inr s0
       | Some k \<Rightarrow>
           if entrance t \<noteq> None \<and> is_empty s0 t \<and> cost_of k \<le> batteries s0 then
             and_then (spend_batteries (cost_of k) s0) (\<lambda>s1.
               and_then (manager s1) (\<lambda>s2.
                 place (length (heap s2)) t
                   (s2\<lparr>heap := heap s2 @ [new_contraption k], selected := None\<rparr>)))
           else Inr s0)"

subsection \<open>Construction (\<^verbatim>\<open>Cat.__init__\<close>, \<^verbatim>\<open>GameManager.initialize\<close>)\<close>

definition Cat_init :: "cat_kind \<Rightarrow> int \<Rightarrow> int \<Rightarrow> int \<Rightarrow> error + cat" where
  "Cat_init k starting_att needed_rest starting_rest =
     (if \<not> starting_att \<ge> 0 then Inl AssertionError
      else if \<not> needed_rest \<ge> 1 then Inl AssertionError
      else if \<not> starting_rest \<ge> 0 then Inl AssertionError
      else Inr \<lparr>kind = k, starting_attention = starting_att, attention = 0,
                needed_rest_time = needed_rest, rest_time = starting_rest, cat_tile = None\<rparr>)"

definition new_cat :: "cat_kind \<Rightarrow> int \<Rightarrow> error + cat" where
  "new_cat k initial_rest_time =
     (case k of
        Tabby \<Rightarrow> Cat_init Tabby 4 4 initial_rest_time
      | Calico \<Rightarrow> Cat_init Calico 5 4 initial_rest_time
      | Kitten \<Rightarrow> Cat_init Kitten 3 6 initial_rest_time)"

fun new_cats :: "(cat_kind \<times> int) list \<Rightarrow> error + cat list" where
  "new_cats [] = Inr []"
| "new_cats ((k, r) # rest') =
     and_then (new_cat k r) (\<lambda>c. and_then (new_cats rest') (\<lambda>cs. Inr (c # cs)))"

definition initialize :: "nat \<Rightarrow> (cat_kind \<times> int) list \<Rightarrow> error + game" where
  "initialize lanes cat_specs =
     and_then (new_cats cat_specs) (\<lambda>cs.
       Inr \<lparr>lane_count = lanes, board = (\<lambda>t. None), cats = cs, heap = [], balls = [],
            contraptions = [], batteries = STARTING_BATTERIES, rounds = 0, game_ended = False,
            initialized = True, selected = None, printed = []\<rparr>)"

subsection \<open>Scenarios\<close>

text \<open>A game of two lanes before any cat or contraption exists.\<close>

definition empty_game :: game where
  "empty_game =
     \<lparr>lane_count = 2, board = (\<lambda>t. None), cats = [], heap = [], balls = [],
      contraptions = [], batteries = 8, rounds = 0, game_ended = False, initialized = True, selected = None,
      printed = []\<rparr>"

text \<open>\<open>n\<close> calls of \<^verbatim>\<open>interact()\<close> on the contraption \<open>j\<close>, one after the other.\<close>

fun interact_times :: "nat \<Rightarrow> nat \<Rightarrow> game \<Rightarrow> error + game" where
  "interact_times 0 j s = Inr s"
| "interact_times (Suc n) j s = and_then (interact j s) (interact_times n j)"

text \<open>The game right after a new snack dispenser has been placed on the tile \<open>t\<close>.\<close>

definition placed_snack :: "game \<Rightarrow> tile \<Rightarrow> game" where
  "placed_snack s t =
     s\<lparr>heap := heap s @ [(new_contraption SnackDispenser)\<lparr>con_tile := Some t\<rparr>],
       contraptions := contraptions s @ [length (heap s)],
       board := (board s)(t := Some (ACon (length (heap s))))\<rparr>"

text \<open>
  The game after a contraption of kind \<open>k\<close> has been bought and placed on the tile
  \<open>t\<close>: the cost is spent, the new contraption is stored and registered last, it occupies
  \<open>t\<close>, and the selection is cleared.
\<close>

definition placed :: "con_kind \<Rightarrow> tile \<Rightarrow> game \<Rightarrow> game" where
  "placed k t s =
     s\<lparr>batteries := batteries s - cost_of k,
       heap := heap s @ [(new_contraption k)\<lparr>con_tile := Some t\<rparr>],
       contraptions := contraptions s @ [length (heap s)],
       board := (board s)(t := Some (ACon (length (heap s)))),
       selected := None\<rparr>"

text \<open>
  What the shell can do to a running game: pick a selector, click a tile, click
  \<^verbatim>\<open>End Turn\<close> (with the random draws of that round, one per cat).
\<close>

datatype command = Select con_kind | Click tile | EndTurn "nat \<Rightarrow> nat"

fun step :: "command \<Rightarrow> game \<Rightarrow> error + game" where
  "step (Select k) s = set_current_selector k s"
| "step (Click t) s = clicked t s"
| "step (EndTurn draw) s = end_turn_clicked draw s"

fun run :: "command list \<Rightarrow> game \<Rightarrow> error + game" where
  "run [] s = Inr s"
| "run (c # cs) s = and_then (step c s) (run cs)"

text \<open>A new game played through a list of commands.\<close>

definition play :: "nat \<Rightarrow> (cat_kind \<times> int) list \<Rightarrow> command list \<Rightarrow> error + game" where
  "play lanes cat_specs cs = and_then (initialize lanes cat_specs) (run cs)"

text \<open>The exception a computation ended with, and an observation of its result.\<close>

definition raised :: "error + 'a \<Rightarrow> error option" where
  "raised r = (case r of Inl e \<Rightarrow> Some e | Inr x \<Rightarrow> None)"

definition observe :: "('a \<Rightarrow> 'b) \<Rightarrow> error + 'a \<Rightarrow> 'b option" where
  "observe f r = (case r of Inl e \<Rightarrow> None | Inr x \<Rightarrow> Some (f x))"

text \<open>Every draw picks the first empty lane.\<close>

definition first_lane :: "nat \<Rightarrow> nat" where
  "first_lane i = 0"

text \<open>
  One lane, one kitten. A battery charger placed right in front of the kitten costs it
  one of its two moves in the second round, so that it stands on the last tile of the
  lane (column 0) when the sixth round starts.
\<close>

definition kitten_script :: "command list" where
  "kitten_script =
     [EndTurn first_lane, Select BatteryCharger, Click (0, 6),
      EndTurn first_lane, EndTurn first_lane, EndTurn first_lane, EndTurn first_lane]"

text \<open>
  Two lanes, one tabby that enters on lane 0. A colorful ball thrower on the last tile of
  lane 0 lays balls on columns 3, 2 and 1; a space heater on (1, 5) takes the tabby's
  attention from 4 to 1 while it walks from column 6 to column 4.
\<close>

definition ball_script :: "command list" where
  "ball_script =
     [EndTurn first_lane, Select ColorfulBallThrower, Click (0, 0),
      Select SpaceHeater, Click (1, 5),
      EndTurn first_lane, EndTurn first_lane, EndTurn first_lane]"

text \<open>
  One lane, one tabby that enters in the third round. A laser pointer on column 1, and a
  snack dispenser on column 3 between the laser and the lane's entrance.
\<close>

definition laser_script :: "command list" where
  "laser_script =
     [Select LaserPointer, Click (0, 1),
      EndTurn first_lane, EndTurn first_lane, EndTurn first_lane,
      Select SnackDispenser, Click (0, 3)]"

text \<open>
  The tiles a scan visits: those reached from the tile \<open>t\<close> by \<^verbatim>\<open>entrance()\<close>, nearest
  first, and the first cat found on a list of tiles.
\<close>

definition lane_ahead :: "tile \<Rightarrow> tile list" where
  "lane_ahead t = (case t of (r, c) \<Rightarrow> map (Pair r) [Suc c..<LANE_WIDTH])"

fun first_cat :: "game \<Rightarrow> tile list \<Rightarrow> nat option" where
  "first_cat s [] = None"
| "first_cat s (t # ts) =
     (case board s t of
        Some (ACat i) \<Rightarrow> Some i
      | _ \<Rightarrow> first_cat s ts)"

text \<open>The tiles of a board of \<open>n\<close> lanes.\<close>

definition tile_exists :: "nat \<Rightarrow> tile \<Rightarrow> bool" where
  "tile_exists n t = (fst t < n \<and> snd t < LANE_WIDTH)"

text \<open>
  The reach of a space heater, in the words of the specification: on the cat's own lane the
  tiles one and two columns away, on the lane directly above and the lane directly below
  the tiles at most one column away.
\<close>

definition within_heater_range :: "tile \<Rightarrow> tile \<Rightarrow> bool" where
  "within_heater_range t h =
     (let lanes_apart = \<bar>int (fst h) - int (fst t)\<bar>;
          columns_apart = \<bar>int (snd h) - int (snd t)\<bar>
      in (lanes_apart = 0 \<and> (columns_apart = 1 \<or> columns_apart = 2))
         \<or> (lanes_apart = 1 \<and> columns_apart \<le> 1))"

text \<open>
  The order of the scan, as (lane, column) offsets from the cat's tile; the column grows
  towards the lane's entrance (the source's "right"). Own lane: one and two tiles to the
  right, then one and two to the left; lane above (one lane index less): same column, right,
  left; lane below: same column, right, left.
\<close>

definition scan_offsets :: "(int \<times> int) list" where
  "scan_offsets =
     [(0, 1), (0, 2), (0, - 1), (0, - 2),
      (- 1, 0), (- 1, 1), (- 1, - 1),
      (1, 0), (1, 1), (1, - 1)]"

text \<open>The tiles of the board at these offsets from \<open>t\<close>, in this order.\<close>

definition scan_order :: "nat \<Rightarrow> tile \<Rightarrow> tile list" where
  "scan_order n t =
     map (\<lambda>(x, y). (nat x, nat y))
       (filter (\<lambda>(x, y). 0 \<le> x \<and> x < int n \<and> 0 \<le> y \<and> y < int LANE_WIDTH)
          (map (\<lambda>(lanes, columns). (int (fst t) + lanes, int (snd t) + columns)) scan_offsets))"

text \<open>
  Two lanes; a tabby with an attention of 4 on (0, 4); space heaters on (0, 5) and on (1, 3),
  both within reach of (0, 4) and of the tile ahead of it, (0, 3), and one on (1, 6), out of
  reach of both.
\<close>

definition heater_game :: game where
  "heater_game =
     empty_game
       \<lparr>cats := [\<lparr>kind = Tabby, starting_attention = 4, attention = 4, needed_rest_time = 4,
                  rest_time = 0, cat_tile = Some (0, 4)\<rparr>],
        heap := [(new_contraption SpaceHeater)\<lparr>con_tile := Some (0, 5)\<rparr>,
                 (new_contraption SpaceHeater)\<lparr>con_tile := Some (1, 3)\<rparr>,
                 (new_contraption SpaceHeater)\<lparr>con_tile := Some (1, 6)\<rparr>],
        contraptions := [0, 1, 2],
        board := (\<lambda>t. None)((0, 4) := Some (ACat 0), (0, 5) := Some (ACon 0),
                   (1, 3) := Some (ACon 1), (1, 6) := Some (ACon 2))\<rparr>"

text \<open>
  The game in which the cat \<open>i\<close> has left its tile \<open>t\<close> and stands on the tile \<open>n\<close>
  (whatever lay on \<open>n\<close> is gone), and the game that has just been lost.
\<close>

definition stepped :: "nat \<Rightarrow> tile \<Rightarrow> tile \<Rightarrow> game \<Rightarrow> game" where
  "stepped i t n s =
     (set_cat_tile i (Some n) s)\<lparr>board := (board s)(t := None, n := Some (ACat i))\<rparr>"

definition lost :: "game \<Rightarrow> game" where
  "lost s = s\<lparr>printed := printed s @ [''You lose!''], game_ended := True, initialized := False\<rparr>"

text \<open>
  One tabby (cat 0, attention 4) on (0, 4) with the given occupant on the tile ahead, (0, 3):
  nothing, the ball 0, the snack dispenser 0 or a second tabby (cat 1). And a tabby on the
  last tile of its lane.
\<close>

definition ahead_game :: "actor option \<Rightarrow> game" where
  "ahead_game a =
     empty_game
       \<lparr>cats :=
          \<lparr>kind = Tabby, starting_attention = 4, attention = 4, needed_rest_time = 4,
            rest_time = 0, cat_tile = Some (0, 4)\<rparr>
          # (if a = Some (ACat 1)
             then [\<lparr>kind = Tabby, starting_attention = 4, attention = 4, needed_rest_time = 4,
                     rest_time = 0, cat_tile = Some (0, 3)\<rparr>]
             else []),
        heap := (if a = Some (ACon 0)
                 then [(new_contraption SnackDispenser)\<lparr>con_tile := Some (0, 3)\<rparr>] else []),
        balls := (if a = Some (ABall 0) then [Some (0, 3)] else []),
        contraptions := (if a = Some (ACon 0) then [0] else []),
        board := (\<lambda>t. None)((0, 4) := Some (ACat 0), (0, 3) := a)\<rparr>"

definition goal_game :: game where
  "goal_game =
     empty_game
       \<lparr>cats := [\<lparr>kind = Tabby, starting_attention = 4, attention = 4, needed_rest_time = 4,
                  rest_time = 0, cat_tile = Some (0, 0)\<rparr>],
        board := (\<lambda>t. None)((0, 0) := Some (ACat 0))\<rparr>"

text \<open>
  What no action of a contraption changes (\<open>device_frame\<close>) and what no action of a cat
  changes (\<open>unit_frame\<close>): a cat can knock a contraption out of the registry and can end
  the game, a contraption can do neither.
\<close>

definition unit_frame :: "game \<Rightarrow> game \<Rightarrow> bool" where
  "unit_frame s s' =
     (lane_count s' = lane_count s \<and> rounds s' = rounds s
      \<and> length (cats s') = length (cats s) \<and> length (heap s') = length (heap s)
      \<and> selected s' = selected s)"

definition device_frame :: "game \<Rightarrow> game \<Rightarrow> bool" where
  "device_frame s s' =
     (unit_frame s s' \<and> contraptions s' = contraptions s \<and> game_ended s' = game_ended s
      \<and> initialized s' = initialized s \<and> printed s' = printed s)"

text \<open>
  The loop over the cats alone: \<^verbatim>\<open>end_round\<close> of every cat in the order of the list, up
  to and including the first one that ends the game.
\<close>

fun units_pass :: "(nat \<Rightarrow> nat) \<Rightarrow> nat list \<Rightarrow> game \<Rightarrow> error + game" where
  "units_pass draw [] s = Inr s"
| "units_pass draw (i # is) s =
     and_then (cat_end_round i (draw i) s) (\<lambda>s1.
       if game_ended s1 then Inr s1 else units_pass draw is s1)"

text \<open>The game that has just been won.\<close>

definition won :: "game \<Rightarrow> game" where
  "won s = s\<lparr>printed := printed s @ [''You win!''], game_ended := True, initialized := False\<rparr>"

subsection \<open>Occupancy\<close>

text \<open>The tile an actor reports (its \<^verbatim>\<open>_tile\<close> field).\<close>

fun actor_tile :: "game \<Rightarrow> actor \<Rightarrow> tile option" where
  "actor_tile s (ACat i) = cat_tile (cats s ! i)"
| "actor_tile s (ACon j) = con_tile (heap s ! j)"
| "actor_tile s (ABall b) = balls s ! b"

text \<open>
  The actors of a game: its cats, the contraptions built so far (on the board or knocked
  over) and the balls built so far (on the board or picked up).
\<close>

fun is_actor :: "game \<Rightarrow> actor \<Rightarrow> bool" where
  "is_actor s (ACat i) = (i < length (cats s))"
| "is_actor s (ACon j) = (j < length (heap s))"
| "is_actor s (ABall b) = (b < length (balls s))"

text \<open>
  Every occupant of a tile reports that tile, in the words of the specification, and the
  form in which this is carried through the operations: every occupant is an actor that
  reports its tile, and every cat and contraption that reports a tile occupies it.
\<close>

definition occupants_point_back :: "game \<Rightarrow> bool" where
  "occupants_point_back s = (\<forall>t a. board s t = Some a \<longrightarrow> actor_tile s a = Some t)"

definition linked :: "game \<Rightarrow> bool" where
  "linked s =
     ((\<forall>t a. board s t = Some a \<longrightarrow> is_actor s a \<and> actor_tile s a = Some t)
      \<and> (\<forall>i t. i < length (cats s) \<and> cat_tile (cats s ! i) = Some t
             \<longrightarrow> board s t = Some (ACat i))
      \<and> (\<forall>j t. j < length (heap s) \<and> con_tile (heap s ! j) = Some t
             \<longrightarrow> board s t = Some (ACon j)))"

text \<open>
  The games that the shell can reach: a new game, and whatever a command that returns makes
  of a reachable game. The shell clicks tiles of the board only.
\<close>

inductive reachable :: "game \<Rightarrow> bool" where
  new_game: "initialize lanes cat_specs = Inr s \<Longrightarrow> reachable s"
| select: "reachable s \<Longrightarrow> step (Select k) s = Inr s' \<Longrightarrow> reachable s'"
| click: "reachable s \<Longrightarrow> tile_exists (lane_count s) t \<Longrightarrow> step (Click t) s = Inr s'
          \<Longrightarrow> reachable s'"
| end_turn: "reachable s \<Longrightarrow> step (EndTurn draw) s = Inr s' \<Longrightarrow> reachable s'"

text \<open>A command of the shell on a board of \<open>n\<close> lanes clicks an existing tile, if any.\<close>

fun command_ok :: "nat \<Rightarrow> command \<Rightarrow> bool" where
  "command_ok n (Click t) = tile_exists n t"
| "command_ok n c = True"


text \<open>
  What a scan does to the game, in the words of the specification: the first cat on the
  given tiles, nearest first, is distracted by 1, and nothing happens when no tile holds a
  cat. And the furthest empty tile among the given tiles.
\<close>

definition distract_first :: "tile list \<Rightarrow> game \<Rightarrow> error + game" where
  "distract_first ts s = (case first_cat s ts of None \<Rightarrow> Inr s | Some i \<Rightarrow> distract i 1 s)"

definition furthest_empty :: "game \<Rightarrow> tile list \<Rightarrow> tile option" where
  "furthest_empty s ts =
     (case filter (is_empty s) ts of [] \<Rightarrow> None | e # es \<Rightarrow> Some (last (e # es)))"

text \<open>
  Two lanes. The contraption 0, of the given kind, on (0, 1) and the snack dispenser 1 on
  (0, 3); a tabby on (0, 4), behind the dispenser, and a tabby on (1, 6), each with an
  attention of 4. And the same board without the cats.
\<close>

definition scan_game :: "con_kind \<Rightarrow> game" where
  "scan_game k =
     empty_game
       \<lparr>cats := [\<lparr>kind = Tabby, starting_attention = 4, attention = 4, needed_rest_time = 4,
                  rest_time = 0, cat_tile = Some (0, 4)\<rparr>,
                \<lparr>kind = Tabby, starting_attention = 4, attention = 4, needed_rest_time = 4,
                  rest_time = 0, cat_tile = Some (1, 6)\<rparr>],
        heap := [(new_contraption k)\<lparr>con_tile := Some (0, 1)\<rparr>,
                 (new_contraption SnackDispenser)\<lparr>con_tile := Some (0, 3)\<rparr>],
        contraptions := [0, 1],
        board := (\<lambda>t. None)((0, 1) := Some (ACon 0), (0, 3) := Some (ACon 1),
                   (0, 4) := Some (ACat 0), (1, 6) := Some (ACat 1))\<rparr>"

definition throw_game :: game where
  "throw_game =
     empty_game
       \<lparr>heap := [(new_contraption ColorfulBallThrower)\<lparr>con_tile := Some (0, 1)\<rparr>,
                 (new_contraption SnackDispenser)\<lparr>con_tile := Some (0, 4)\<rparr>],
        contraptions := [0, 1],
        board := (\<lambda>t. None)((0, 1) := Some (ACon 0), (0, 4) := Some (ACon 1))\<rparr>"

text \<open>
  A running game of two lanes in the given round, with 8 batteries. Registered in this
  order: a laser pointer on (1, 1), a laser pointer on (0, 1) and a battery charger on (0, 0)
  that is ready. A calico on (1, 5) and, behind it, a tabby on (1, 6).
\<close>

definition order_game :: "int \<Rightarrow> game" where
  "order_game n =
     empty_game
       \<lparr>cats := [\<lparr>kind = Calico, starting_attention = 5, attention = 5, needed_rest_time = 4,
                  rest_time = 0, cat_tile = Some (1, 5)\<rparr>,
                \<lparr>kind = Tabby, starting_attention = 4, attention = 4, needed_rest_time = 4,
                  rest_time = 0, cat_tile = Some (1, 6)\<rparr>],
        heap := [(new_contraption LaserPointer)\<lparr>con_tile := Some (1, 1)\<rparr>,
                 (new_contraption LaserPointer)\<lparr>con_tile := Some (0, 1)\<rparr>,
                 (new_contraption BatteryCharger)\<lparr>con_tile := Some (0, 0), ready := True\<rparr>],
        contraptions := [0, 1, 2],
        board := (\<lambda>t. None)((1, 1) := Some (ACon 0), (0, 1) := Some (ACon 1),
                   (0, 0) := Some (ACon 2), (1, 5) := Some (ACat 0), (1, 6) := Some (ACat 1)),
        rounds := n\<rparr>"

text \<open>
  What a distraction by 1 makes of the game, in the words of the specification: the cat's
  attention drops by 1; a cat whose attention is then 0 leaves the board and rests for its
  rest time; a calico that is still on the board moves to the tile above its own when that
  tile exists and is empty.
\<close>

definition distracted :: "nat \<Rightarrow> game \<Rightarrow> game" where
  "distracted i s =
     (case cat_tile (cats s ! i) of
        None \<Rightarrow> s
      | Some u \<Rightarrow>
          if attention (cats s ! i) \<le> 1 then
            (upd_cat i (\<lambda>c. c\<lparr>attention := 0, rest_time := needed_rest_time c,
                                cat_tile := None\<rparr>) s)
              \<lparr>board := (board s)(u := None)\<rparr>
          else
            (case (if kind (cats s ! i) = Calico then above u else None) of
               None \<Rightarrow> upd_cat i (\<lambda>c. c\<lparr>attention := attention c - 1\<rparr>) s
             | Some p \<Rightarrow>
                 if board s p = None
                 then stepped i u p (upd_cat i (\<lambda>c. c\<lparr>attention := attention c - 1\<rparr>) s)
                 else upd_cat i (\<lambda>c. c\<lparr>attention := attention c - 1\<rparr>) s))"

text \<open>
  The tile on which the cat \<open>i\<close> stands after it was distracted on the tile \<open>n\<close> and
  stayed on the board.
\<close>

definition landing :: "nat \<Rightarrow> tile \<Rightarrow> game \<Rightarrow> tile" where
  "landing i n s =
     (case (if kind (cats s ! i) = Calico then above n else None) of
        None \<Rightarrow> n
      | Some p \<Rightarrow> if board s p = None then p else n)"

text \<open>
  A space heater stands on one of the tiles of \<open>scan_order\<close> around the tile \<open>u\<close>, and what
  the passive-range check makes of the game: one distraction by 1 of a cat that has a space
  heater in reach, nothing otherwise.
\<close>

definition heater_near :: "game \<Rightarrow> tile \<Rightarrow> bool" where
  "heater_near s u = list_ex (\<lambda>h. holds_heater s (Some h)) (scan_order (lane_count s) u)"

definition warmed :: "nat \<Rightarrow> game \<Rightarrow> game" where
  "warmed i s =
     (case cat_tile (cats s ! i) of
        None \<Rightarrow> s
      | Some u \<Rightarrow> if heater_near s u then distracted i s else s)"

text \<open>
  What the interaction of a cat with the contraption \<open>j\<close> on the tile \<open>n\<close> makes of the
  game: a snack dispenser loses one of its uses and stays unless that was its last one; any
  other contraption, and the snack dispenser at its last use, leaves its tile and the
  registry.
\<close>

definition interacted :: "nat \<Rightarrow> tile \<Rightarrow> game \<Rightarrow> game" where
  "interacted j n s =
     (if ckind (heap s ! j) = SnackDispenser \<and> uses (heap s ! j) \<noteq> 1
      then upd_con j (\<lambda>d. d\<lparr>uses := uses d - 1\<rparr>) s
      else
        (upd_con j (\<lambda>d. d\<lparr>uses := (if ckind d = SnackDispenser then 0 else uses d),
                            con_tile := None\<rparr>) s)
          \<lparr>board := (board s)(n := None), contraptions := remove1 j (contraptions s)\<rparr>)"
text \<open>
  Two lanes. A cat of the given kind with an attention of 4 on (1, 4), the ball 0 on the tile
  ahead, (1, 3), and a space heater on (1, 1): within reach of (1, 3), out of reach of (0, 3).
\<close>

definition dodge_game :: "cat_kind \<Rightarrow> game" where
  "dodge_game k =
     empty_game
       \<lparr>cats := [\<lparr>kind = k, starting_attention = (if k = Calico then 5 else 4), attention = 4,
                  needed_rest_time = 4, rest_time = 0, cat_tile = Some (1, 4)\<rparr>],
        heap := [(new_contraption SpaceHeater)\<lparr>con_tile := Some (1, 1)\<rparr>],
        balls := [Some (1, 3)],
        contraptions := [0],
        board := (\<lambda>t. None)((1, 4) := Some (ACat 0), (1, 3) := Some (ABall 0),
                   (1, 1) := Some (ACon 0))\<rparr>"

text \<open>Every draw picks the second empty lane.\<close>

definition second_lane :: "nat \<Rightarrow> nat" where
  "second_lane i = 1"

text \<open>
  Two lanes, one cat that enters on lane 1. A colorful ball thrower on the last tile of lane
  1 lays balls on columns 3 and 2, and a space heater stands on column 1 of that lane. When
  the script ends the cat stands on (1, 4), with the attention it entered with, in front of
  the ball on (1, 3).
\<close>

definition dodge_script :: "command list" where
  "dodge_script =
     [EndTurn second_lane, Select ColorfulBallThrower, Click (1, 0),
      Select SpaceHeater, Click (1, 1),
      EndTurn second_lane, EndTurn second_lane, EndTurn second_lane]"

section \<open>Verified properties\<close>

subsection \<open>Basic facts\<close>

lemma and_then_Inr [simp]: "and_then (Inr x) f = f x"
  by (simp add: and_then_def)

lemma and_then_Inl [simp]: "and_then (Inl e) f = Inl e"
  by (simp add: and_then_def)

lemma and_then_eq_Inr: "(and_then m f = Inr y) = (\<exists>x. m = Inr x \<and> f x = Inr y)"
  by (cases m) simp_all

lemma upd_cat_fields [simp]:
  "cats (upd_cat i f s) = (cats s)[i := f (cats s ! i)]"
  "board (upd_cat i f s) = board s"
  "heap (upd_cat i f s) = heap s"
  "contraptions (upd_cat i f s) = contraptions s"
  "balls (upd_cat i f s) = balls s"
  "lane_count (upd_cat i f s) = lane_count s"
  "batteries (upd_cat i f s) = batteries s"
  "rounds (upd_cat i f s) = rounds s"
  "game_ended (upd_cat i f s) = game_ended s"
  "initialized (upd_cat i f s) = initialized s"
  "selected (upd_cat i f s) = selected s"
  "printed (upd_cat i f s) = printed s"
  by (simp_all add: upd_cat_def)

lemma upd_con_fields [simp]:
  "heap (upd_con j f s) = (heap s)[j := f (heap s ! j)]"
  "board (upd_con j f s) = board s"
  "cats (upd_con j f s) = cats s"
  "contraptions (upd_con j f s) = contraptions s"
  "balls (upd_con j f s) = balls s"
  "lane_count (upd_con j f s) = lane_count s"
  "batteries (upd_con j f s) = batteries s"
  "rounds (upd_con j f s) = rounds s"
  "game_ended (upd_con j f s) = game_ended s"
  "initialized (upd_con j f s) = initialized s"
  "selected (upd_con j f s) = selected s"
  "printed (upd_con j f s) = printed s"
  by (simp_all add: upd_con_def)

subsection \<open>The durable blocker\<close>

lemma place_new_snack:
  assumes "initialized s" "is_empty s t"
  shows "place (length (heap s)) t (s\<lparr>heap := heap s @ [new_contraption SnackDispenser]\<rparr>)
         = Inr (placed_snack s t)"
  using assms
  by (simp add: place_def manager_def con_teleport_def add_contraption_def new_contraption_def
      set_actor_def set_con_tile_def upd_con_def is_empty_def placed_snack_def)

lemma interact_snack_keep:
  assumes "j < length (heap s)" "ckind (heap s ! j) = SnackDispenser" "uses (heap s ! j) \<noteq> 1"
  shows "interact j s = Inr (upd_con j (\<lambda>d. d\<lparr>uses := uses d - 1\<rparr>) s)"
  using assms by (simp add: interact_def Let_def)

lemma interact_times_keep:
  assumes "j < length (heap s)" "ckind (heap s ! j) = SnackDispenser" "int n < uses (heap s ! j)"
  shows "interact_times n j s = Inr (upd_con j (\<lambda>d. d\<lparr>uses := uses d - int n\<rparr>) s)"
  using assms
proof (induction n arbitrary: s)
  case 0
  then show ?case by (simp add: upd_con_def)
next
  case (Suc n)
  have keep: "interact j s = Inr (upd_con j (\<lambda>d. d\<lparr>uses := uses d - 1\<rparr>) s)"
    using Suc.prems by (intro interact_snack_keep) auto
  let ?s1 = "upd_con j (\<lambda>d. d\<lparr>uses := uses d - 1\<rparr>) s"
  have "interact_times n j ?s1 = Inr (upd_con j (\<lambda>d. d\<lparr>uses := uses d - int n\<rparr>) ?s1)"
    using Suc.prems by (intro Suc.IH) auto
  then show ?case
    using keep Suc.prems(1) by (simp add: upd_con_def diff_diff_eq)
qed

lemma interact_times_snoc:
  "interact_times (Suc n) j s = and_then (interact_times n j s) (interact j)"
proof (induction n arbitrary: s)
  case 0
  then show ?case by (cases "interact j s") simp_all
next
  case (Suc n)
  show ?case
  proof (cases "interact j s")
    case (Inl e)
    then show ?thesis by simp
  next
    case (Inr s1)
    then show ?thesis using Suc.IH [of s1] by simp
  qed
qed

text \<open>
  Claim C10. A snack dispenser that has just been placed on an empty tile stays on its tile
  and in the registry of contraptions through its first four interactions (here: after any
  number \<open>n < 5\<close> of them); the fifth interaction takes it off its tile and out of the
  registry, which is then the registry from before the placement (empty when the dispenser
  was the only contraption).
\<close>

theorem snack_dispenser_five_interactions:
  assumes "initialized s" and "is_empty s t"
    and "\<forall>x \<in> set (contraptions s). x < length (heap s)"
    and "j = length (heap s)"
    and "s1 = placed_snack s t"
  shows "place j t (s\<lparr>heap := heap s @ [new_contraption SnackDispenser]\<rparr>) = Inr s1
    \<and> (\<forall>n < 5. \<exists>s'. interact_times n j s1 = Inr s'
          \<and> con_tile (heap s' ! j) = Some t \<and> board s' t = Some (ACon j)
          \<and> j \<in> set (contraptions s'))
    \<and> (\<exists>s'. interact_times 5 j s1 = Inr s'
          \<and> con_tile (heap s' ! j) = None \<and> board s' t = None
          \<and> j \<notin> set (contraptions s') \<and> contraptions s' = contraptions s)"
proof -
  have fresh: "j \<notin> set (contraptions s)"
    using assms(3,4) by auto
  have j: "j < length (heap s1)" "ckind (heap s1 ! j) = SnackDispenser" "uses (heap s1 ! j) = 5"
    using assms(4,5) by (simp_all add: placed_snack_def new_contraption_def)
  have keep: "interact_times n j s1 = Inr (upd_con j (\<lambda>d. d\<lparr>uses := uses d - int n\<rparr>) s1)"
    if "n < 5" for n
    using that j by (intro interact_times_keep) auto
  have part1: "place j t (s\<lparr>heap := heap s @ [new_contraption SnackDispenser]\<rparr>) = Inr s1"
    using assms(1,2,4,5) place_new_snack by simp
  have part2: "\<exists>s'. interact_times n j s1 = Inr s'
          \<and> con_tile (heap s' ! j) = Some t \<and> board s' t = Some (ACon j)
          \<and> j \<in> set (contraptions s')" if "n < 5" for n
    using keep [OF that] assms(4,5) by (simp add: placed_snack_def)
  let ?s4 = "upd_con j (\<lambda>d. d\<lparr>uses := uses d - int 4\<rparr>) s1"
  let ?s5 = "s\<lparr>heap := heap s @ [(new_contraption SnackDispenser)\<lparr>uses := 0\<rparr>]\<rparr>"
  have board_same: "(board s)(t := None) = board s"
    using assms(2) by (auto simp: is_empty_def)
  have last: "interact j ?s4 = Inr ?s5"
    using assms(1,2,4,5) fresh board_same
    by (simp add: interact_def Let_def Contraption_interact_def clear_actor_def is_empty_def
        manager_def set_con_tile_def upd_con_def remove_contraption_def placed_snack_def
        new_contraption_def remove1_append remove1_idem)
  have "interact_times 5 j s1 = and_then (interact_times 4 j s1) (interact j)"
    using interact_times_snoc [of 4 j s1] by (simp add: eval_nat_numeral)
  then have five: "interact_times 5 j s1 = Inr ?s5"
    using keep [of 4] last by simp
  have part3: "\<exists>s'. interact_times 5 j s1 = Inr s'
          \<and> con_tile (heap s' ! j) = None \<and> board s' t = None
          \<and> j \<notin> set (contraptions s') \<and> contraptions s' = contraptions s"
    using five fresh assms(2,4) by (simp add: new_contraption_def is_empty_def)
  show ?thesis using part1 part2 part3 by blast
qed


theorem snack_dispenser_five_interactions_witness:
  "initialized empty_game \<and> is_empty empty_game (0, 2)
   \<and> place 0 (0, 2) (empty_game\<lparr>heap := [new_contraption SnackDispenser]\<rparr>)
       = Inr (placed_snack empty_game (0, 2))
   \<and> (\<exists>s'. interact_times 4 0 (placed_snack empty_game (0, 2)) = Inr s'
          \<and> board s' (0, 2) = Some (ACon 0) \<and> 0 \<in> set (contraptions s'))
   \<and> (\<exists>s'. interact_times 5 0 (placed_snack empty_game (0, 2)) = Inr s'
          \<and> board s' (0, 2) = None \<and> contraptions s' = [])"
proof -
  have h: "initialized empty_game" "is_empty empty_game (0, 2)"
    "\<forall>x \<in> set (contraptions empty_game). x < length (heap empty_game)"
    "0 = length (heap empty_game)"
    by (simp_all add: empty_game_def is_empty_def)
  note th = snack_dispenser_five_interactions [OF h refl]
  have four: "\<exists>s'. interact_times 4 0 (placed_snack empty_game (0, 2)) = Inr s'
          \<and> con_tile (heap s' ! 0) = Some (0, 2) \<and> board s' (0, 2) = Some (ACon 0)
          \<and> 0 \<in> set (contraptions s')"
    using th [THEN conjunct2, THEN conjunct1, rule_format, of 4] by simp
  have five: "\<exists>s'. interact_times 5 0 (placed_snack empty_game (0, 2)) = Inr s'
          \<and> con_tile (heap s' ! 0) = None \<and> board s' (0, 2) = None
          \<and> 0 \<notin> set (contraptions s') \<and> contraptions s' = contraptions empty_game"
    using th [THEN conjunct2, THEN conjunct2] by simp
  have reg: "contraptions empty_game = []" "heap empty_game = []"
    by (simp_all add: empty_game_def)
  show ?thesis
    using h(1,2) th [THEN conjunct1] four five reg by auto
qed

subsection \<open>Placement\<close>

lemma cost_of_nonneg: "0 \<le> cost_of k"
  by (cases k) (simp_all add: cost_of_def)



subsection \<open>Three runs that end in an exception or outside the cats' invariant\<close>

text \<open>
  Claim C3 (the code misses it for the kitten). After \<open>kitten_script\<close> the game is
  running and the kitten stands on column 0 of its lane, whose tile has no exit. In the next
  round \<^verbatim>\<open>Kitten.end_round\<close> moves twice: the first move loses the game (and destroys
  the manager), the second finds the kitten still on the board and asks the destroyed manager
  to lose the game again, so \<^verbatim>\<open>GameManager.end_round\<close> ends in an AssertionError. A
  tabby in the same place ends the round in the lost game, with one loss printed.
\<close>

theorem kitten_at_goal_raises:
  "observe (\<lambda>s. (map kind (cats s), map cat_tile (cats s), game_ended s, initialized s))
     (play 1 [(Kitten, 1)] kitten_script)
     = Some ([Kitten], [Some (0, 0)], False, True)
   \<and> raised (play 1 [(Kitten, 1)] (kitten_script @ [EndTurn first_lane]))
     = Some AssertionError
   \<and> observe (\<lambda>s. (map cat_tile (cats s), game_ended s, printed s))
     (play 1 [(Tabby, 1)] (kitten_script @ [EndTurn first_lane, EndTurn first_lane,
        EndTurn first_lane, EndTurn first_lane, EndTurn first_lane]))
     = Some ([Some (0, 0)], True, [''You lose!''])"
  by code_simp

text \<open>
  Claim C5 (the code misses it for an initial rest time of 0, which \<^verbatim>\<open>Cat.__init__\<close>
  accepts). The new cat is off the board with a rest time of 0, and its first round takes
  the rest time to -1: \<^verbatim>\<open>Cat.rest\<close> compares with 0 only after the decrement, so the
  cat never enters the board.
\<close>

theorem zero_rest_cat_breaks_invariant:
  "observe (\<lambda>s. map (\<lambda>c. (cat_tile c, attention c, rest_time c)) (cats s))
     (play 1 [(Tabby, 0)] [])
     = Some [(None, 0, 0)]
   \<and> observe (\<lambda>s. map (\<lambda>c. (cat_tile c, attention c, rest_time c)) (cats s))
     (play 1 [(Tabby, 0)] [EndTurn first_lane])
     = Some [(None, 0, - 1)]
   \<and> observe (\<lambda>s. map (\<lambda>c. (cat_tile c, attention c, rest_time c)) (cats s))
     (play 1 [(Tabby, 0)] [EndTurn first_lane, EndTurn first_lane, EndTurn first_lane])
     = Some [(None, 0, - 3)]"
  by code_simp

text \<open>
  Claim C7 (the code misses it). After \<open>ball_script\<close> the tabby stands on (0, 4) with an
  attention of 1 and a ball lies on the tile ahead. In the next round the tabby picks the
  ball up, the distraction takes its attention to 0 and removes it from the board, and
  \<^verbatim>\<open>_check_space_heater\<close> then calls \<^verbatim>\<open>self._tile.above()\<close> on None: the move, and the
  round with it, ends in an AttributeError.
\<close>

theorem ball_pickup_at_attention_one_raises:
  "observe (\<lambda>s. (map cat_tile (cats s), map attention (cats s), board s (0, 3), balls s))
     (play 2 [(Tabby, 1)] ball_script)
     = Some ([Some (0, 4)], [1], Some (ABall 0), [Some (0, 3), Some (0, 2), Some (0, 1)])
   \<and> raised (and_then (play 2 [(Tabby, 1)] ball_script) (move 0)) = Some AttributeError
   \<and> raised (play 2 [(Tabby, 1)] (ball_script @ [EndTurn first_lane]))
     = Some AttributeError"
  by code_simp

text \<open>
  Claim C9 fails as stated: after \<open>laser_script\<close> a snack dispenser stands between the
  laser pointer and the tabby on the lane's entrance tile, and the laser's
  \<^verbatim>\<open>end_round\<close> still takes the tabby's attention from 4 to 3.
\<close>

theorem laser_passes_non_unit_occupant:
  "observe (\<lambda>s. (map (\<lambda>d. (ckind d, con_tile d)) (heap s), map cat_tile (cats s),
       map attention (cats s), board s (0, 3)))
     (play 1 [(Tabby, 3)] laser_script)
     = Some ([(LaserPointer, Some (0, 1)), (SnackDispenser, Some (0, 3))], [Some (0, 7)],
         [4], Some (ACon 1))
   \<and> observe (\<lambda>s. (map cat_tile (cats s), map attention (cats s)))
     (and_then (play 1 [(Tabby, 3)] laser_script) (con_end_round 0))
     = Some ([Some (0, 7)], [3])"
  by code_simp

subsection \<open>What the primitive steps return\<close>

lemma manager_eq_Inr [simp]: "(manager s = Inr s') = (initialized s \<and> s' = s)"
  by (auto simp: manager_def)

lemma clear_actor_eq_Inr:
  "(clear_actor t s = Inr s') =
     (board s t \<noteq> None \<and> initialized s \<and> s' = s\<lparr>board := (board s)(t := None)\<rparr>)"
  by (auto simp: clear_actor_def is_empty_def and_then_eq_Inr)

lemma set_actor_eq_Inr:
  "(set_actor t a s = Inr s') =
     (board s t = None \<and> s' = s\<lparr>board := (board s)(t := Some a)\<rparr>)"
  by (auto simp: set_actor_def is_empty_def)

lemma set_cat_tile_fields [simp]:
  "cats (set_cat_tile i t s) = (cats s)[i := (cats s ! i)\<lparr>cat_tile := t\<rparr>]"
  "board (set_cat_tile i t s) = board s"
  "heap (set_cat_tile i t s) = heap s"
  "contraptions (set_cat_tile i t s) = contraptions s"
  "balls (set_cat_tile i t s) = balls s"
  "lane_count (set_cat_tile i t s) = lane_count s"
  "batteries (set_cat_tile i t s) = batteries s"
  "rounds (set_cat_tile i t s) = rounds s"
  "game_ended (set_cat_tile i t s) = game_ended s"
  "initialized (set_cat_tile i t s) = initialized s"
  "selected (set_cat_tile i t s) = selected s"
  "printed (set_cat_tile i t s) = printed s"
  by (simp_all add: set_cat_tile_def)

lemma set_con_tile_fields [simp]:
  "heap (set_con_tile j t s) = (heap s)[j := (heap s ! j)\<lparr>con_tile := t\<rparr>]"
  "board (set_con_tile j t s) = board s"
  "cats (set_con_tile j t s) = cats s"
  "contraptions (set_con_tile j t s) = contraptions s"
  "balls (set_con_tile j t s) = balls s"
  "lane_count (set_con_tile j t s) = lane_count s"
  "batteries (set_con_tile j t s) = batteries s"
  "rounds (set_con_tile j t s) = rounds s"
  "game_ended (set_con_tile j t s) = game_ended s"
  "initialized (set_con_tile j t s) = initialized s"
  "selected (set_con_tile j t s) = selected s"
  "printed (set_con_tile j t s) = printed s"
  by (simp_all add: set_con_tile_def)

lemma cat_teleport_attention:
  "cat_teleport i t s = Inr s' \<Longrightarrow> i < length (cats s) \<Longrightarrow>
   attention (cats s' ! i) = attention (cats s ! i)"
  by (auto simp: cat_teleport_def and_then_eq_Inr clear_actor_eq_Inr set_actor_eq_Inr
      split: option.splits)

lemma Cat_distract_one_attention:
  assumes "Cat_distract i 1 s = Inr s'" "i < length (cats s)" "1 \<le> attention (cats s ! i)"
  shows "attention (cats s' ! i) = attention (cats s ! i) - 1 \<and> length (cats s') = length (cats s)"
proof (cases "attention (cats s ! i) - 1 \<le> 0")
  case True
  then have "cat_remove_from_board i
      (upd_cat i (\<lambda>c. c\<lparr>attention := 0, rest_time := needed_rest_time c\<rparr>)
         (upd_cat i (\<lambda>c. c\<lparr>attention := attention c - 1\<rparr>) s)) = Inr s'"
    using assms by (simp add: Cat_distract_def Let_def)
  then show ?thesis
    using assms(2,3) True
    by (auto simp: cat_remove_from_board_def and_then_eq_Inr clear_actor_eq_Inr
        split: option.splits)
next
  case False
  then show ?thesis using assms by (auto simp: Cat_distract_def Let_def)
qed

lemma distract_one_attention:
  assumes "distract i 1 s = Inr s'" "i < length (cats s)" "1 \<le> attention (cats s ! i)"
  shows "attention (cats s' ! i) = attention (cats s ! i) - 1"
proof (cases "kind (cats s ! i) = Calico")
  case False
  then show ?thesis using assms Cat_distract_one_attention by (simp add: distract_def)
next
  case True
  then obtain s1 where s1: "Cat_distract i 1 s = Inr s1"
    and rest: "(case cat_tile (cats s1 ! i) of
            None \<Rightarrow> Inr s1
          | Some t \<Rightarrow>
              (case above t of
                 None \<Rightarrow> Inr s1
               | Some tile_above \<Rightarrow>
                   if is_empty s1 tile_above then cat_teleport i tile_above s1 else Inr s1)) = Inr s'"
    using assms(1) by (auto simp: distract_def and_then_eq_Inr)
  have a1: "attention (cats s1 ! i) = attention (cats s ! i) - 1" "i < length (cats s1)"
    using Cat_distract_one_attention [OF s1 assms(2,3)] assms(2) by simp_all
  have "attention (cats s' ! i) = attention (cats s1 ! i)"
    using rest a1(2) cat_teleport_attention
    by (auto split: option.splits if_splits)
  then show ?thesis using a1 by simp
qed

subsection \<open>Scans along the lane\<close>

lemma shoot_laser_from:
  "c < LANE_WIDTH \<Longrightarrow>
   shoot_laser (Some (r, c)) s =
     (case first_cat s (map (Pair r) [c..<LANE_WIDTH]) of
        None \<Rightarrow> Inr s
      | Some i \<Rightarrow> distract i 1 s)"
proof (induction "LANE_WIDTH - c" arbitrary: c)
  case 0
  then show ?case by simp
next
  case (Suc n)
  have cons: "[c..<LANE_WIDTH] = c # [Suc c..<LANE_WIDTH]"
    using Suc.prems by (simp add: upt_conv_Cons)
  show ?case
  proof (cases "Suc c < LANE_WIDTH")
    case True
    have "n = LANE_WIDTH - Suc c" using Suc.hyps(2) by simp
    from Suc.hyps(1) [OF this True] True show ?thesis
      by (simp add: cons split: option.splits actor.splits)
  next
    case False
    then have "[Suc c..<LANE_WIDTH] = []" by simp
    with False show ?thesis
      by (simp add: cons split: option.splits actor.splits)
  qed
qed

lemma shoot_laser_entrance:
  "shoot_laser (entrance t) s =
     (case first_cat s (lane_ahead t) of None \<Rightarrow> Inr s | Some i \<Rightarrow> distract i 1 s)"
proof (cases t)
  case (Pair r c)
  show ?thesis
  proof (cases "Suc c < LANE_WIDTH")
    case True
    then show ?thesis using Pair shoot_laser_from [of "Suc c" r s]
      by (simp add: lane_ahead_def)
  next
    case False
    then show ?thesis using Pair by (simp add: lane_ahead_def)
  qed
qed

declare throw_ball.simps [simp del] find_cat.simps [simp del] find_last_empty.simps [simp del]

lemma throw_ball_None: "throw_ball None k s = Inr s"
  by (subst throw_ball.simps) simp

lemma throw_ball_Some:
  "throw_ball (Some t) k s =
     (if k < 3 then
        (case board s t of
           Some (ACat i) \<Rightarrow> distract i 1 s
         | _ \<Rightarrow> throw_ball (entrance t) (Suc k) s)
      else Inr s)"
  by (subst throw_ball.simps) (simp split: option.splits actor.splits)

lemma throw_ball_from:
  "c < LANE_WIDTH \<Longrightarrow>
   throw_ball (Some (r, c)) k s =
     (case first_cat s (take (3 - k) (map (Pair r) [c..<LANE_WIDTH])) of
        None \<Rightarrow> Inr s
      | Some i \<Rightarrow> distract i 1 s)"
proof (induction "3 - k" arbitrary: c k)
  case 0
  then show ?case by (simp add: throw_ball_Some)
next
  case (Suc n)
  have cons: "[c..<LANE_WIDTH] = c # [Suc c..<LANE_WIDTH]"
    using Suc.prems by (simp add: upt_conv_Cons)
  have k: "k < 3" "3 - k = Suc (3 - Suc k)" using Suc.hyps(2) by auto
  show ?case
  proof (cases "Suc c < LANE_WIDTH")
    case True
    have "n = 3 - Suc k" using Suc.hyps(2) by simp
    from Suc.hyps(1) [OF this True]
    have IH: "throw_ball (Some (r, Suc c)) (Suc k) s =
       (case first_cat s (take (3 - Suc k) (map (Pair r) [Suc c..<LANE_WIDTH])) of
          None \<Rightarrow> Inr s | Some i \<Rightarrow> distract i 1 s)" .
    show ?thesis
      unfolding throw_ball_Some [of "(r, c)"] cons k(2)
      using True k(1) IH by (simp split: option.splits actor.splits)
  next
    case False
    then have "[Suc c..<LANE_WIDTH] = []" by simp
    with False k(1) show ?thesis
      unfolding throw_ball_Some [of "(r, c)"] cons k(2)
      by (simp add: throw_ball_None split: option.splits actor.splits)
  qed
qed

lemma find_cat_None: "find_cat None k s = None"
  by (subst find_cat.simps) simp

lemma find_cat_Some:
  "find_cat (Some t) k s =
     (if k < 3 then
        (case board s t of
           Some (ACat i) \<Rightarrow> Some i
         | _ \<Rightarrow> find_cat (entrance t) (Suc k) s)
      else None)"
  by (subst find_cat.simps) (simp split: option.splits actor.splits)

lemma find_cat_from:
  "c < LANE_WIDTH \<Longrightarrow>
   find_cat (Some (r, c)) k s = first_cat s (take (3 - k) (map (Pair r) [c..<LANE_WIDTH]))"
proof (induction "3 - k" arbitrary: c k)
  case 0
  then show ?case by (simp add: find_cat_Some)
next
  case (Suc n)
  have cons: "[c..<LANE_WIDTH] = c # [Suc c..<LANE_WIDTH]"
    using Suc.prems by (simp add: upt_conv_Cons)
  have k: "k < 3" "3 - k = Suc (3 - Suc k)" using Suc.hyps(2) by auto
  show ?case
  proof (cases "Suc c < LANE_WIDTH")
    case True
    have "n = 3 - Suc k" using Suc.hyps(2) by simp
    from Suc.hyps(1) [OF this True]
    have IH: "find_cat (Some (r, Suc c)) (Suc k) s =
       first_cat s (take (3 - Suc k) (map (Pair r) [Suc c..<LANE_WIDTH]))" .
    show ?thesis
      unfolding find_cat_Some [of "(r, c)"] cons k(2)
      using True k(1) IH by (simp split: option.splits actor.splits)
  next
    case False
    then have "[Suc c..<LANE_WIDTH] = []" by simp
    with False k(1) show ?thesis
      unfolding find_cat_Some [of "(r, c)"] cons k(2)
      by (simp add: find_cat_None split: option.splits actor.splits)
  qed
qed

lemma find_cat_entrance:
  "find_cat (entrance t) 0 s = first_cat s (take 3 (lane_ahead t))"
proof (cases t)
  case (Pair r c)
  show ?thesis
  proof (cases "Suc c < LANE_WIDTH")
    case True
    then show ?thesis using Pair find_cat_from [of "Suc c" r 0 s]
      by (simp add: lane_ahead_def)
  next
    case False
    then show ?thesis using Pair by (simp add: lane_ahead_def find_cat_None)
  qed
qed

lemma throw_ball_entrance:
  "throw_ball (entrance t) 0 s =
     (case first_cat s (take 3 (lane_ahead t)) of None \<Rightarrow> Inr s | Some i \<Rightarrow> distract i 1 s)"
proof (cases t)
  case (Pair r c)
  show ?thesis
  proof (cases "Suc c < LANE_WIDTH")
    case True
    then show ?thesis using Pair throw_ball_from [of "Suc c" r 0 s]
      by (simp add: lane_ahead_def)
  next
    case False
    then show ?thesis using Pair by (simp add: lane_ahead_def throw_ball_None)
  qed
qed

subsection \<open>The passive-range check\<close>

lemma in_set_mapI: "x \<in> set xs \<Longrightarrow> f x \<in> set (map f xs)"
  by simp

lemma scan_order_mem:
  "((r', c') \<in> set (scan_order n (r, c))) =
     (tile_exists n (r', c') \<and>
      (int r' - int r, int c' - int c) \<in> set scan_offsets)"
proof
  assume "(r', c') \<in> set (scan_order n (r, c))"
  then obtain lanes columns where off: "(lanes, columns) \<in> set scan_offsets"
    and ok: "0 \<le> int r + lanes" "int r + lanes < int n"
      "0 \<le> int c + columns" "int c + columns < int LANE_WIDTH"
    and eq: "r' = nat (int r + lanes)" "c' = nat (int c + columns)"
    by (auto simp: scan_order_def)
  have "int r' - int r = lanes" "int c' - int c = columns"
    using ok eq by simp_all
  moreover have "tile_exists n (r', c')"
    using ok eq unfolding tile_exists_def fst_conv snd_conv by linarith
  ultimately show "tile_exists n (r', c') \<and>
      (int r' - int r, int c' - int c) \<in> set scan_offsets"
    using off by simp
next
  assume a: "tile_exists n (r', c') \<and>
      (int r' - int r, int c' - int c) \<in> set scan_offsets"
  let ?p = "(int r' - int r, int c' - int c)"
  let ?g = "\<lambda>(lanes, columns). (int (fst (r, c)) + lanes, int (snd (r, c)) + columns)"
  let ?P = "\<lambda>(x, y). 0 \<le> x \<and> x < int n \<and> 0 \<le> y \<and> y < int LANE_WIDTH"
  let ?f = "\<lambda>(x :: int, y :: int). (nat x, nat y)"
  have m1: "?g ?p \<in> set (map ?g scan_offsets)"
    using a by (intro in_set_mapI) simp
  have "?P (?g ?p)"
    using a by (simp add: tile_exists_def)
  with m1 have m2: "?g ?p \<in> set (filter ?P (map ?g scan_offsets))"
    by (simp only: set_filter mem_Collect_eq) 
  have "?f (?g ?p) \<in> set (map ?f (filter ?P (map ?g scan_offsets)))"
    using m2 by (rule in_set_mapI)
  moreover have "?f (?g ?p) = (r', c')" by simp
  ultimately show "(r', c') \<in> set (scan_order n (r, c))"
    unfolding scan_order_def by simp
qed

lemma within_heater_range_offsets:
  "within_heater_range (r, c) (r', c') = ((int r' - int r, int c' - int c) \<in> set scan_offsets)"
  unfolding within_heater_range_def Let_def scan_offsets_def fst_conv snd_conv
  by (simp add: abs_if) presburger

lemma scan_order_set:
  "set (scan_order n t) = {h. tile_exists n h \<and> within_heater_range t h}"
proof (cases t)
  case (Pair r c)
  show ?thesis
  proof (rule set_eqI)
    fix h :: tile
    obtain r' c' where h: "h = (r', c')" by (cases h)
    show "(h \<in> set (scan_order n t)) = (h \<in> {h. tile_exists n h \<and> within_heater_range t h})"
      unfolding Pair h by (simp only: scan_order_mem within_heater_range_offsets mem_Collect_eq)
  qed
qed

lemma holds_heater_option:
  "holds_heater s topt = (\<exists>h. topt = Some h \<and> holds_heater s (Some h))"
  by (cases topt) (simp_all add: holds_heater_def)

text \<open>The tiles that the links reach from an existing tile are those of \<open>scan_order\<close>.\<close>

lemma links_scan_order:
  assumes "tile_exists n (r, c)"
  shows "(walk entrance (Suc 0) (Some (r, c)) = Some h
          \<or> walk entrance (Suc (Suc 0)) (Some (r, c)) = Some h
          \<or> walk exit (Suc 0) (Some (r, c)) = Some h
          \<or> walk exit (Suc (Suc 0)) (Some (r, c)) = Some h
          \<or> (\<exists>ta. above (r, c) = Some ta \<and> (ta = h \<or> entrance ta = Some h \<or> exit ta = Some h))
          \<or> (\<exists>tb. below n (r, c) = Some tb \<and> (tb = h \<or> entrance tb = Some h \<or> exit tb = Some h)))
         = (h \<in> set (scan_order n (r, c)))"
proof -
  obtain r' c' where h: "h = (r', c')" by (cases h)
  have own_right: "(walk entrance (Suc 0) (Some (r, c)) = Some h
          \<or> walk entrance (Suc (Suc 0)) (Some (r, c)) = Some h)
        = (tile_exists n h \<and> r' = r \<and> (c' = c + 1 \<or> c' = c + 2))"
    using assms unfolding h by (auto simp: tile_exists_def split: if_splits)
  have own_left: "(walk exit (Suc 0) (Some (r, c)) = Some h
          \<or> walk exit (Suc (Suc 0)) (Some (r, c)) = Some h)
        = (tile_exists n h \<and> r' = r \<and> (c' + 1 = c \<or> c' + 2 = c))"
    using assms unfolding h by (auto simp: tile_exists_def split: if_splits)
  have up: "(\<exists>ta. above (r, c) = Some ta \<and> (ta = h \<or> entrance ta = Some h \<or> exit ta = Some h))
        = (tile_exists n h \<and> r' + 1 = r \<and> (c' = c \<or> c' = c + 1 \<or> c' + 1 = c))"
    using assms unfolding h by (auto simp: tile_exists_def split: if_splits)
  have down: "(\<exists>tb. below n (r, c) = Some tb \<and> (tb = h \<or> entrance tb = Some h \<or> exit tb = Some h))
        = (tile_exists n h \<and> r' = r + 1 \<and> (c' = c \<or> c' = c + 1 \<or> c' + 1 = c))"
    using assms unfolding h by (auto simp: tile_exists_def split: if_splits)
  have offs: "((int r' - int r, int c' - int c) \<in> set scan_offsets)
        = ((r' = r \<and> (c' = c + 1 \<or> c' = c + 2 \<or> c' + 1 = c \<or> c' + 2 = c))
            \<or> ((r' + 1 = r \<or> r' = r + 1) \<and> (c' = c \<or> c' = c + 1 \<or> c' + 1 = c)))"
    unfolding scan_offsets_def by simp presburger
  show ?thesis
    unfolding h scan_order_mem offs
    using own_right own_left up down unfolding h by blast
qed

lemma Cat_distract_succeeds:
  assumes "i < length (cats s)" "cat_tile (cats s ! i) = Some t" "board s t \<noteq> None"
    "initialized s" "0 \<le> a"
  shows "\<exists>s'. Cat_distract i a s = Inr s'
     \<and> board s' = (if cat_tile (cats s' ! i) = None then (board s)(t := None) else board s)
     \<and> initialized s' \<and> length (cats s') = length (cats s)
     \<and> (cat_tile (cats s' ! i) = None \<or> cat_tile (cats s' ! i) = Some t)"
  using assms
  by (auto simp: Cat_distract_def Let_def cat_remove_from_board_def clear_actor_def is_empty_def
      manager_def)

lemma distract_succeeds:
  assumes "i < length (cats s)" "cat_tile (cats s ! i) = Some t" "board s t \<noteq> None"
    "initialized s" "0 \<le> a"
  shows "\<exists>s'. distract i a s = Inr s'"
proof (cases "kind (cats s ! i) = Calico")
  case False
  then show ?thesis using Cat_distract_succeeds [OF assms] by (auto simp: distract_def)
next
  case True
  obtain s1 where s1: "Cat_distract i a s = Inr s1"
    and b1: "board s1 = (if cat_tile (cats s1 ! i) = None then (board s)(t := None) else board s)"
    and i1: "initialized s1"
    and c1: "cat_tile (cats s1 ! i) = None \<or> cat_tile (cats s1 ! i) = Some t"
    using Cat_distract_succeeds [OF assms] by blast
  show ?thesis
  proof (cases "cat_tile (cats s1 ! i)")
    case None
    then show ?thesis using True s1 by (simp add: distract_def)
  next
    case (Some u)
    then have u: "u = t" using c1 by simp
    have bt: "board s1 t \<noteq> None" using b1 Some assms(3) by simp
    show ?thesis
      using True s1 Some u bt i1
      by (auto simp: distract_def cat_teleport_def clear_actor_def set_actor_def is_empty_def
          manager_def split: option.splits)
  qed
qed

lemma check_space_heater_scan:
  assumes "cat_tile (cats s ! i) = Some t" "tile_exists (lane_count s) t"
  shows "check_space_heater i s =
     (if \<exists>h \<in> set (scan_order (lane_count s) t). holds_heater s (Some h)
      then distract i 1 s else Inr s)"
proof -
  obtain r c where t: "t = (r, c)" by (cases t)
  let ?n = "lane_count s"
  have mem: "(h \<in> set (scan_order ?n (r, c))) =
     (walk entrance (Suc 0) (Some (r, c)) = Some h
          \<or> walk entrance (Suc (Suc 0)) (Some (r, c)) = Some h
          \<or> walk exit (Suc 0) (Some (r, c)) = Some h
          \<or> walk exit (Suc (Suc 0)) (Some (r, c)) = Some h
          \<or> (\<exists>ta. above (r, c) = Some ta \<and> (ta = h \<or> entrance ta = Some h \<or> exit ta = Some h))
          \<or> (\<exists>tb. below ?n (r, c) = Some tb \<and> (tb = h \<or> entrance tb = Some h \<or> exit tb = Some h)))"
    for h
    using links_scan_order [of ?n r c h] assms(2) unfolding t by simp
  have right: "(holds_heater s (walk entrance (Suc 0) (Some (r, c)))
        \<or> holds_heater s (walk entrance (Suc (Suc 0)) (Some (r, c))))
      = (\<exists>h. (walk entrance (Suc 0) (Some (r, c)) = Some h
          \<or> walk entrance (Suc (Suc 0)) (Some (r, c)) = Some h) \<and> holds_heater s (Some h))"
    by (subst (1 2) holds_heater_option) blast
  have left: "(holds_heater s (walk exit (Suc 0) (Some (r, c)))
        \<or> holds_heater s (walk exit (Suc (Suc 0)) (Some (r, c))))
      = (\<exists>h. (walk exit (Suc 0) (Some (r, c)) = Some h
          \<or> walk exit (Suc (Suc 0)) (Some (r, c)) = Some h) \<and> holds_heater s (Some h))"
    by (subst (1 2) holds_heater_option) blast
  have lane: "heater_in_lane s u =
      (\<exists>h. (u = h \<or> entrance u = Some h \<or> exit u = Some h) \<and> holds_heater s (Some h))" for u
    unfolding heater_in_lane_def
    by (subst (2 3) holds_heater_option) blast
  have up: "(case above (r, c) of None \<Rightarrow> False | Some ta \<Rightarrow> heater_in_lane s ta)
      = (\<exists>h. (\<exists>ta. above (r, c) = Some ta \<and> (ta = h \<or> entrance ta = Some h \<or> exit ta = Some h))
            \<and> holds_heater s (Some h))"
    by (cases "above (r, c)") (auto simp: lane)
  have down: "(case below ?n (r, c) of None \<Rightarrow> False | Some tb \<Rightarrow> heater_in_lane s tb)
      = (\<exists>h. (\<exists>tb. below ?n (r, c) = Some tb \<and> (tb = h \<or> entrance tb = Some h \<or> exit tb = Some h))
            \<and> holds_heater s (Some h))"
    by (cases "below ?n (r, c)") (auto simp: lane)
  have all: "(\<exists>h \<in> set (scan_order ?n (r, c)). holds_heater s (Some h)) =
     ((holds_heater s (walk entrance (Suc 0) (Some (r, c)))
        \<or> holds_heater s (walk entrance (Suc (Suc 0)) (Some (r, c))))
      \<or> (holds_heater s (walk exit (Suc 0) (Some (r, c)))
        \<or> holds_heater s (walk exit (Suc (Suc 0)) (Some (r, c))))
      \<or> (case above (r, c) of None \<Rightarrow> False | Some ta \<Rightarrow> heater_in_lane s ta)
      \<or> (case below ?n (r, c) of None \<Rightarrow> False | Some tb \<Rightarrow> heater_in_lane s tb))"
    unfolding right left up down Bex_def mem by blast
  show ?thesis
    unfolding t all
    using assms(1) unfolding t check_space_heater_def Let_def
    by (simp del: walk.simps above.simps below.simps)
qed

subsection \<open>One move of a cat\<close>

lemma cat_teleport_stepped:
  assumes "cat_tile (cats s ! i) = Some t" "board s t \<noteq> None" "initialized s"
    "board s n = None" "n \<noteq> t"
  shows "cat_teleport i n s = Inr (stepped i t n s)"
  using assms
  by (simp add: cat_teleport_def clear_actor_def set_actor_def is_empty_def manager_def
      stepped_def set_cat_tile_def upd_cat_def)

lemma pick_up_stepped:
  assumes "cat_tile (cats s ! i) = Some t" "board s t \<noteq> None" "initialized s"
    "board s n \<noteq> None" "n \<noteq> t"
  shows "and_then (clear_actor n s) (cat_teleport i n) = Inr (stepped i t n s)"
proof -
  let ?s1 = "s\<lparr>board := (board s)(n := None)\<rparr>"
  have "clear_actor n s = Inr ?s1"
    using assms(3,4) by (simp add: clear_actor_def is_empty_def manager_def)
  moreover have "cat_teleport i n ?s1 = Inr (stepped i t n ?s1)"
    using assms by (intro cat_teleport_stepped) simp_all
  moreover have "stepped i t n ?s1 = stepped i t n s"
    using assms(5) by (simp add: stepped_def set_cat_tile_def upd_cat_def fun_upd_twist)
  ultimately show ?thesis by simp
qed

lemma exit_differs: "exit t = Some n \<Longrightarrow> n \<noteq> t"
  by (cases t) (auto split: if_splits)

lemma interact_cats: "interact j s = Inr s' \<Longrightarrow> cats s' = cats s"
  by (auto simp: interact_def Let_def Contraption_interact_def and_then_eq_Inr
      clear_actor_eq_Inr remove_contraption_def split: if_splits option.splits)

lemma lose_game_lost: "initialized s \<Longrightarrow> and_then (manager s) lose_game = Inr (lost s)"
  by (simp add: manager_def lose_game_def destroy_def lost_def)

subsection \<open>What the steps of a round leave unchanged\<close>

lemma device_frame_refl [simp]: "device_frame s s"
  by (simp add: device_frame_def unit_frame_def)

lemma unit_frame_refl [simp]: "unit_frame s s"
  by (simp add: unit_frame_def)

lemma device_frame_trans: "device_frame s s1 \<Longrightarrow> device_frame s1 s2 \<Longrightarrow> device_frame s s2"
  by (simp add: device_frame_def unit_frame_def)

lemma unit_frame_trans: "unit_frame s s1 \<Longrightarrow> unit_frame s1 s2 \<Longrightarrow> unit_frame s s2"
  by (simp add: unit_frame_def)

lemma device_frame_unit: "device_frame s s' \<Longrightarrow> unit_frame s s'"
  by (simp add: device_frame_def)

lemma cat_teleport_frame: "cat_teleport i t s = Inr s' \<Longrightarrow> device_frame s s'"
  by (auto simp: cat_teleport_def and_then_eq_Inr clear_actor_eq_Inr set_actor_eq_Inr
      device_frame_def unit_frame_def split: option.splits)

lemma Cat_distract_frame: "Cat_distract i a s = Inr s' \<Longrightarrow> device_frame s s'"
  by (auto simp: Cat_distract_def Let_def cat_remove_from_board_def and_then_eq_Inr
      clear_actor_eq_Inr device_frame_def unit_frame_def split: option.splits if_splits)

lemma distract_frame: "distract i a s = Inr s' \<Longrightarrow> device_frame s s'"
proof (cases "kind (cats s ! i) = Calico")
  case False
  assume "distract i a s = Inr s'"
  then show ?thesis using False Cat_distract_frame by (simp add: distract_def)
next
  case True
  assume "distract i a s = Inr s'"
  then obtain s1 where s1: "Cat_distract i a s = Inr s1"
    and r: "(case cat_tile (cats s1 ! i) of
            None \<Rightarrow> Inr s1
          | Some t \<Rightarrow>
              (case above t of
                 None \<Rightarrow> Inr s1
               | Some tile_above \<Rightarrow>
                   if is_empty s1 tile_above then cat_teleport i tile_above s1 else Inr s1)) = Inr s'"
    using True by (auto simp: distract_def and_then_eq_Inr)
  have "device_frame s1 s'"
    using r cat_teleport_frame by (auto split: option.splits if_splits)
  then show ?thesis using Cat_distract_frame [OF s1] device_frame_trans by blast
qed

lemma check_space_heater_frame: "check_space_heater i s = Inr s' \<Longrightarrow> device_frame s s'"
  by (auto simp: check_space_heater_def Let_def dest: distract_frame
      split: option.splits if_splits)

lemma shoot_laser_frame: "shoot_laser topt s = Inr s' \<Longrightarrow> device_frame s s'"
  by (induction topt s rule: shoot_laser.induct)
     (auto dest: distract_frame split: option.splits actor.splits)

lemma first_cat_distract_frame:
  "(case first_cat s ts of None \<Rightarrow> Inr s | Some i \<Rightarrow> distract i 1 s) = Inr s' \<Longrightarrow>
   device_frame s s'"
  by (auto dest: distract_frame split: option.splits)

lemma new_ball_teleport_frame: "new_ball_teleport t s = Inr s' \<Longrightarrow> device_frame s s'"
  by (auto simp: new_ball_teleport_def and_then_eq_Inr set_actor_eq_Inr
      device_frame_def unit_frame_def)

lemma laser_frame:
  "ckind (heap s ! j) = LaserPointer \<Longrightarrow> con_end_round j s = Inr s' \<Longrightarrow> device_frame s s'"
  by (auto simp: con_end_round_def simp del: shoot_laser.simps dest: shoot_laser_frame
      split: option.splits)

lemma snack_frame:
  "ckind (heap s ! j) = SnackDispenser \<Longrightarrow> con_end_round j s = Inr s' \<Longrightarrow> device_frame s s'"
  by (auto simp: con_end_round_def)

lemma heater_frame:
  "ckind (heap s ! j) = SpaceHeater \<Longrightarrow> con_end_round j s = Inr s' \<Longrightarrow> device_frame s s'"
  by (auto simp: con_end_round_def)

lemma charger_frame:
  "ckind (heap s ! j) = BatteryCharger \<Longrightarrow> con_end_round j s = Inr s' \<Longrightarrow> device_frame s s'"
  by (auto simp: con_end_round_def and_then_eq_Inr update_battery_text_def
        device_frame_def unit_frame_def split: if_splits)

lemma thrower_frame:
  "ckind (heap s ! j) = BallThrower \<Longrightarrow> con_end_round j s = Inr s' \<Longrightarrow> device_frame s s'"
  by (auto simp: con_end_round_def throw_ball_entrance dest: distract_frame
        split: option.splits)

lemma colorful_frame:
  "ckind (heap s ! j) = ColorfulBallThrower \<Longrightarrow> con_end_round j s = Inr s' \<Longrightarrow> device_frame s s'"
  by (auto simp: con_end_round_def dest: distract_frame new_ball_teleport_frame
        split: option.splits)

lemma triple_frame:
  assumes "ckind (heap s ! j) = TripleLaserPointer" "con_end_round j s = Inr s'"
  shows "device_frame s s'"
proof -
  obtain t where t: "con_tile (heap s ! j) = Some t"
    using assms by (cases "con_tile (heap s ! j)") (simp_all add: con_end_round_def)
  have "and_then (shoot_laser (entrance t) s) (\<lambda>s1.
          and_then
            (case above t of None \<Rightarrow> Inr s1 | Some ta \<Rightarrow> shoot_laser (entrance ta) s1)
            (\<lambda>s2. case below (lane_count s2) t of
                     None \<Rightarrow> Inr s2
                   | Some tb \<Rightarrow> shoot_laser (entrance tb) s2)) = Inr s'"
    using assms t by (simp add: con_end_round_def)
  then obtain s1 s2 where s1: "shoot_laser (entrance t) s = Inr s1"
    and s2: "(case above t of None \<Rightarrow> Inr s1 | Some ta \<Rightarrow> shoot_laser (entrance ta) s1) = Inr s2"
    and s3: "(case below (lane_count s2) t of None \<Rightarrow> Inr s2
              | Some tb \<Rightarrow> shoot_laser (entrance tb) s2) = Inr s'"
    unfolding and_then_eq_Inr by blast
  have "device_frame s s1" using s1 by (rule shoot_laser_frame)
  moreover have "device_frame s1 s2"
  proof (cases "above t")
    case None
    then show ?thesis using s2 by simp
  next
    case (Some ta)
    then show ?thesis using s2 shoot_laser_frame [of "entrance ta" s1 s2] by simp
  qed
  moreover have "device_frame s2 s'"
  proof (cases "below (lane_count s2) t")
    case None
    then show ?thesis using s3 by simp
  next
    case (Some tb)
    then show ?thesis using s3 shoot_laser_frame [of "entrance tb" s2 s'] by simp
  qed
  ultimately show ?thesis by (blast intro: device_frame_trans)
qed

lemma con_end_round_frame: "con_end_round j s = Inr s' \<Longrightarrow> device_frame s s'"
  using laser_frame snack_frame heater_frame charger_frame thrower_frame colorful_frame
    triple_frame
  by (cases "ckind (heap s ! j)") blast+

lemma contraptions_loop_frame: "contraptions_loop js s = Inr s' \<Longrightarrow> device_frame s s'"
proof (induction js arbitrary: s)
  case Nil
  then show ?case by simp
next
  case (Cons j js)
  then obtain s1 where "con_end_round j s = Inr s1" "contraptions_loop js s1 = Inr s'"
    by (auto simp: and_then_eq_Inr)
  then show ?case
    using Cons.IH con_end_round_frame device_frame_trans by blast
qed

lemma interact_frame: "interact j s = Inr s' \<Longrightarrow> unit_frame s s'"
  by (auto simp: interact_def Let_def Contraption_interact_def and_then_eq_Inr
      clear_actor_eq_Inr remove_contraption_def unit_frame_def
      split: if_splits option.splits)

lemma move_frame: "move i s = Inr s' \<Longrightarrow> unit_frame s s'"
proof -
  assume a: "move i s = Inr s'"
  then obtain t where t: "cat_tile (cats s ! i) = Some t"
    by (auto simp: move_def split: option.splits)
  show ?thesis
  proof (cases "exit t")
    case None
    then show ?thesis using a t
      by (auto simp: move_def and_then_eq_Inr lose_game_def destroy_def unit_frame_def
          split: if_splits)
  next
    case (Some n)
    consider (ball) "is_ball (board s n)" | (empty) "\<not> is_ball (board s n)" "is_empty s n"
      | (other) "\<not> is_ball (board s n)" "\<not> is_empty s n" by blast
    then show ?thesis
    proof cases
      case ball
      then obtain s1 s2 s3 where "clear_actor n s = Inr s1" "cat_teleport i n s1 = Inr s2"
        "distract i 1 s2 = Inr s3" "check_space_heater i s3 = Inr s'"
        using a t Some by (auto simp: move_def and_then_eq_Inr)
      then have "device_frame s s1" "device_frame s1 s2" "device_frame s2 s3" "device_frame s3 s'"
        using cat_teleport_frame distract_frame check_space_heater_frame
        by (auto simp: clear_actor_eq_Inr device_frame_def unit_frame_def)
      then show ?thesis by (blast intro: device_frame_trans device_frame_unit)
    next
      case empty
      then obtain s1 where "cat_teleport i n s = Inr s1" "check_space_heater i s1 = Inr s'"
        using a t Some by (auto simp: move_def and_then_eq_Inr)
      then show ?thesis
        using cat_teleport_frame check_space_heater_frame
        by (blast intro: device_frame_trans device_frame_unit)
    next
      case other
      then show ?thesis using a t Some
        by (auto simp: move_def dest: interact_frame split: option.splits actor.splits)
    qed
  qed
qed

lemma rest_frame: "rest i d s = Inr s' \<Longrightarrow> unit_frame s s'"
  unfolding rest_def Let_def
  by (auto simp: and_then_eq_Inr unit_frame_def device_frame_def
      dest!: cat_teleport_frame split: if_splits)

lemma cat_end_round_frame: "cat_end_round i d s = Inr s' \<Longrightarrow> unit_frame s s'"
  by (auto simp: cat_end_round_def and_then_eq_Inr
      dest: move_frame rest_frame unit_frame_trans split: if_splits)

lemma units_pass_frame: "units_pass draw is s = Inr s' \<Longrightarrow> unit_frame s s'"
proof (induction "is" arbitrary: s)
  case Nil
  then show ?case by simp
next
  case (Cons i "is")
  then obtain s1 where s1: "cat_end_round i (draw i) s = Inr s1"
    and r: "(if game_ended s1 then Inr s1 else units_pass draw is s1) = Inr s'"
    by (auto simp: and_then_eq_Inr)
  have "unit_frame s1 s'"
    using r Cons.IH by (auto split: if_splits)
  then show ?case using cat_end_round_frame [OF s1] unit_frame_trans by blast
qed

subsection \<open>The round\<close>

lemma cats_loop_units_pass:
  "\<not> game_ended s \<Longrightarrow>
   cats_loop draw is s =
     and_then (units_pass draw is s) (\<lambda>s3. if game_ended s3 then Inr s3 else increment_round s3)"
proof (induction "is" arbitrary: s)
  case Nil
  then show ?case by simp
next
  case (Cons i "is")
  show ?case
  proof (cases "cat_end_round i (draw i) s")
    case (Inl e)
    then show ?thesis by simp
  next
    case (Inr s1)
    then show ?thesis using Cons.IH [of s1] by simp
  qed
qed

lemma increment_round_result:
  assumes "increment_round s = Inr s'" "rounds s < WIN_ROUND"
  shows "s' = (if rounds s + 1 = WIN_ROUND then won (s\<lparr>rounds := rounds s + 1\<rparr>)
               else s\<lparr>rounds := rounds s + 1\<rparr>)"
  using assms
  by (auto simp: increment_round_def Let_def win_game_def destroy_def won_def split: if_splits)

lemma observe_Some: "observe f r = Some y \<Longrightarrow> \<exists>x. r = Inr x \<and> f x = y"
  by (cases r) (simp_all add: observe_def)

subsection \<open>Tiles and their occupants\<close>

lemma linkedD1:
  "linked s \<Longrightarrow> board s t = Some a \<Longrightarrow> is_actor s a \<and> actor_tile s a = Some t"
  unfolding linked_def by blast

lemma linkedD2:
  "linked s \<Longrightarrow> i < length (cats s) \<Longrightarrow> cat_tile (cats s ! i) = Some t \<Longrightarrow>
   board s t = Some (ACat i)"
  unfolding linked_def by blast

lemma linkedD3:
  "linked s \<Longrightarrow> j < length (heap s) \<Longrightarrow> con_tile (heap s ! j) = Some t \<Longrightarrow>
   board s t = Some (ACon j)"
  unfolding linked_def by blast

lemma linkedI:
  assumes "\<And>t a. board s t = Some a \<Longrightarrow> is_actor s a \<and> actor_tile s a = Some t"
    and "\<And>i t. i < length (cats s) \<Longrightarrow> cat_tile (cats s ! i) = Some t \<Longrightarrow>
           board s t = Some (ACat i)"
    and "\<And>j t. j < length (heap s) \<Longrightarrow> con_tile (heap s ! j) = Some t \<Longrightarrow>
           board s t = Some (ACon j)"
  shows "linked s"
  unfolding linked_def using assms by blast

text \<open>
  In a linked game every occupant reports its tile, and two different actors report the same
  tile only when one of them is a ball that this tile does not hold (a ball that was picked
  up).
\<close>

lemma linked_claim:
  assumes "linked s"
  shows "occupants_point_back s
       \<and> (\<forall>a b t. is_actor s a \<and> is_actor s b \<and> actor_tile s a = Some t
              \<and> actor_tile s b = Some t \<and> a \<noteq> b
            \<longrightarrow> (\<exists>x. (a = ABall x \<or> b = ABall x) \<and> board s t \<noteq> Some (ABall x)))"
proof -
  have occ: "board s t = Some a \<or> (\<exists>x. a = ABall x \<and> board s t \<noteq> Some (ABall x))"
    if "is_actor s a" "actor_tile s a = Some t" for a t
  proof (cases a)
    case (ACat i)
    then show ?thesis using linkedD2 [OF assms] that by simp
  next
    case (ACon j)
    then show ?thesis using linkedD3 [OF assms] that by simp
  next
    case (ABall b)
    then show ?thesis by simp
  qed
  have "\<exists>x. (a = ABall x \<or> b = ABall x) \<and> board s t \<noteq> Some (ABall x)"
    if "is_actor s a" "is_actor s b" "actor_tile s a = Some t" "actor_tile s b = Some t" "a \<noteq> b"
    for a b t
    using occ [OF that(1,3)] occ [OF that(2,4)] that(5) by auto
  moreover have "occupants_point_back s"
    unfolding occupants_point_back_def using linkedD1 [OF assms] by blast
  ultimately show ?thesis by blast
qed

lemma map_update_same:
  assumes "\<And>x. g (f x) = g x"
  shows "map g (xs[i := f (xs ! i)]) = map g xs"
proof (rule nth_equalityI)
  show "length (map g (xs[i := f (xs ! i)])) = length (map g xs)" by simp
next
  fix k assume "k < length (map g (xs[i := f (xs ! i)]))"
  then have k: "k < length xs" by simp
  show "map g (xs[i := f (xs ! i)]) ! k = map g xs ! k"
    using k assms by (cases "k = i") simp_all
qed

lemma linked_same_tiles:
  assumes "linked s" "board s' = board s" "map cat_tile (cats s') = map cat_tile (cats s)"
    "map con_tile (heap s') = map con_tile (heap s)" "balls s' = balls s"
  shows "linked s'"
proof -
  have lc: "length (cats s') = length (cats s)" using assms(3) by (metis length_map)
  have lh: "length (heap s') = length (heap s)" using assms(4) by (metis length_map)
  have c: "cat_tile (cats s' ! i) = cat_tile (cats s ! i)" if "i < length (cats s)" for i
    using that lc assms(3) by (metis nth_map)
  have h: "con_tile (heap s' ! j) = con_tile (heap s ! j)" if "j < length (heap s)" for j
    using that lh assms(4) by (metis nth_map)
  show ?thesis
  proof (rule linkedI)
    fix t a assume b: "board s' t = Some a"
    then have "is_actor s a \<and> actor_tile s a = Some t"
      using linkedD1 [OF assms(1)] assms(2) by simp
    then show "is_actor s' a \<and> actor_tile s' a = Some t"
      using lc lh c h assms(2,5) by (cases a) auto
  next
    fix i t assume "i < length (cats s')" "cat_tile (cats s' ! i) = Some t"
    then show "board s' t = Some (ACat i)"
      using linkedD2 [OF assms(1)] lc c assms(2) by simp
  next
    fix j t assume "j < length (heap s')" "con_tile (heap s' ! j) = Some t"
    then show "board s' t = Some (ACon j)"
      using linkedD3 [OF assms(1)] lh h assms(2) by simp
  qed
qed

lemma is_actor_cases:
  "is_actor s a =
     (case a of ACat i \<Rightarrow> i < length (cats s) | ACon j \<Rightarrow> j < length (heap s)
      | ABall b \<Rightarrow> b < length (balls s))"
  by (cases a) simp_all

lemma actor_tile_cases:
  "actor_tile s a =
     (case a of ACat i \<Rightarrow> cat_tile (cats s ! i) | ACon j \<Rightarrow> con_tile (heap s ! j)
      | ABall b \<Rightarrow> balls s ! b)"
  by (cases a) simp_all

lemma linked_cat_leaves:
  assumes "linked s" "i < length (cats s)" "cat_tile (cats s ! i) = Some t"
  shows "linked (set_cat_tile i None (s\<lparr>board := (board s)(t := None)\<rparr>))"
proof (rule linkedI)
  let ?s' = "set_cat_tile i None (s\<lparr>board := (board s)(t := None)\<rparr>)"
  fix u a assume b: "board ?s' u = Some a"
  then have u: "u \<noteq> t" and bs: "board s u = Some a" by (auto split: if_splits)
  have d: "is_actor s a" "actor_tile s a = Some u" using linkedD1 [OF assms(1) bs] by simp_all
  show "is_actor ?s' a \<and> actor_tile ?s' a = Some u"
  proof (cases a)
    case (ACat k)
    then have "k \<noteq> i" using d(2) assms(3) u by auto
    then show ?thesis using ACat d by simp
  next
    case (ACon j)
    then show ?thesis using d by simp
  next
    case (ABall x)
    then show ?thesis using d by simp
  qed
next
  let ?s' = "set_cat_tile i None (s\<lparr>board := (board s)(t := None)\<rparr>)"
  fix k u assume k: "k < length (cats ?s')" "cat_tile (cats ?s' ! k) = Some u"
  then have ki: "k \<noteq> i" using assms(2) by auto
  then have "cat_tile (cats s ! k) = Some u" "k < length (cats s)" using k by simp_all
  then have bu: "board s u = Some (ACat k)" using linkedD2 [OF assms(1)] by simp
  have "board s t = Some (ACat i)" using linkedD2 [OF assms(1,2,3)] .
  then have "u \<noteq> t" using bu ki by auto
  then show "board ?s' u = Some (ACat k)" using bu by simp
next
  let ?s' = "set_cat_tile i None (s\<lparr>board := (board s)(t := None)\<rparr>)"
  fix j u assume "j < length (heap ?s')" "con_tile (heap ?s' ! j) = Some u"
  then have bu: "board s u = Some (ACon j)" using linkedD3 [OF assms(1)] by simp
  have "board s t = Some (ACat i)" using linkedD2 [OF assms(1,2,3)] .
  then have "u \<noteq> t" using bu by auto
  then show "board ?s' u = Some (ACon j)" using bu by simp
qed

lemma linked_cat_enters:
  assumes "linked s" "i < length (cats s)" "cat_tile (cats s ! i) = None" "board s n = None"
  shows "linked ((set_cat_tile i (Some n) s)\<lparr>board := (board s)(n := Some (ACat i))\<rparr>)"
proof (rule linkedI)
  let ?s' = "(set_cat_tile i (Some n) s)\<lparr>board := (board s)(n := Some (ACat i))\<rparr>"
  fix u a assume b: "board ?s' u = Some a"
  show "is_actor ?s' a \<and> actor_tile ?s' a = Some u"
  proof (cases "u = n")
    case True
    then have "a = ACat i" using b by simp
    then show ?thesis using True assms(2) by simp
  next
    case False
    then have bs: "board s u = Some a" using b by simp
    have d: "is_actor s a" "actor_tile s a = Some u" using linkedD1 [OF assms(1) bs] by simp_all
    show ?thesis
    proof (cases a)
      case (ACat k)
      then have "k \<noteq> i" using d(2) assms(3) by auto
      then show ?thesis using ACat d by simp
    next
      case (ACon j)
      then show ?thesis using d by simp
    next
      case (ABall x)
      then show ?thesis using d by simp
    qed
  qed
next
  let ?s' = "(set_cat_tile i (Some n) s)\<lparr>board := (board s)(n := Some (ACat i))\<rparr>"
  fix k u assume k: "k < length (cats ?s')" "cat_tile (cats ?s' ! k) = Some u"
  show "board ?s' u = Some (ACat k)"
  proof (cases "k = i")
    case True
    then show ?thesis using k assms(2) by simp
  next
    case False
    then have "cat_tile (cats s ! k) = Some u" "k < length (cats s)" using k by simp_all
    then have bu: "board s u = Some (ACat k)" using linkedD2 [OF assms(1)] by simp
    then have "u \<noteq> n" using assms(4) by auto
    then show ?thesis using bu by simp
  qed
next
  let ?s' = "(set_cat_tile i (Some n) s)\<lparr>board := (board s)(n := Some (ACat i))\<rparr>"
  fix j u assume "j < length (heap ?s')" "con_tile (heap ?s' ! j) = Some u"
  then have bu: "board s u = Some (ACon j)" using linkedD3 [OF assms(1)] by simp
  then have "u \<noteq> n" using assms(4) by auto
  then show "board ?s' u = Some (ACon j)" using bu by simp
qed

lemma linked_con_leaves:
  assumes "linked s" "j < length (heap s)" "con_tile (heap s ! j) = Some t"
  shows "linked (set_con_tile j None (s\<lparr>board := (board s)(t := None)\<rparr>))"
proof (rule linkedI)
  let ?s' = "set_con_tile j None (s\<lparr>board := (board s)(t := None)\<rparr>)"
  fix u a assume b: "board ?s' u = Some a"
  then have u: "u \<noteq> t" and bs: "board s u = Some a" by (auto split: if_splits)
  have d: "is_actor s a" "actor_tile s a = Some u" using linkedD1 [OF assms(1) bs] by simp_all
  show "is_actor ?s' a \<and> actor_tile ?s' a = Some u"
  proof (cases a)
    case (ACat k)
    then show ?thesis using d by simp
  next
    case (ACon k)
    then have "k \<noteq> j" using d(2) assms(3) u by auto
    then show ?thesis using ACon d by simp
  next
    case (ABall x)
    then show ?thesis using d by simp
  qed
next
  let ?s' = "set_con_tile j None (s\<lparr>board := (board s)(t := None)\<rparr>)"
  fix k u assume "k < length (cats ?s')" "cat_tile (cats ?s' ! k) = Some u"
  then have bu: "board s u = Some (ACat k)" using linkedD2 [OF assms(1)] by simp
  have "board s t = Some (ACon j)" using linkedD3 [OF assms(1,2,3)] .
  then have "u \<noteq> t" using bu by auto
  then show "board ?s' u = Some (ACat k)" using bu by simp
next
  let ?s' = "set_con_tile j None (s\<lparr>board := (board s)(t := None)\<rparr>)"
  fix k u assume k: "k < length (heap ?s')" "con_tile (heap ?s' ! k) = Some u"
  then have kj: "k \<noteq> j" using assms(2) by auto
  then have "con_tile (heap s ! k) = Some u" "k < length (heap s)" using k by simp_all
  then have bu: "board s u = Some (ACon k)" using linkedD3 [OF assms(1)] by simp
  have "board s t = Some (ACon j)" using linkedD3 [OF assms(1,2,3)] .
  then have "u \<noteq> t" using bu kj by auto
  then show "board ?s' u = Some (ACon k)" using bu by simp
qed

lemma linked_con_enters:
  assumes "linked s" "j < length (heap s)" "con_tile (heap s ! j) = None" "board s n = None"
  shows "linked ((set_con_tile j (Some n) s)\<lparr>board := (board s)(n := Some (ACon j))\<rparr>)"
proof (rule linkedI)
  let ?s' = "(set_con_tile j (Some n) s)\<lparr>board := (board s)(n := Some (ACon j))\<rparr>"
  fix u a assume b: "board ?s' u = Some a"
  show "is_actor ?s' a \<and> actor_tile ?s' a = Some u"
  proof (cases "u = n")
    case True
    then have "a = ACon j" using b by simp
    then show ?thesis using True assms(2) by simp
  next
    case False
    then have bs: "board s u = Some a" using b by simp
    have d: "is_actor s a" "actor_tile s a = Some u" using linkedD1 [OF assms(1) bs] by simp_all
    show ?thesis
    proof (cases a)
      case (ACat k)
      then show ?thesis using d by simp
    next
      case (ACon k)
      then have "k \<noteq> j" using d(2) assms(3) by auto
      then show ?thesis using ACon d by simp
    next
      case (ABall x)
      then show ?thesis using d by simp
    qed
  qed
next
  let ?s' = "(set_con_tile j (Some n) s)\<lparr>board := (board s)(n := Some (ACon j))\<rparr>"
  fix k u assume "k < length (cats ?s')" "cat_tile (cats ?s' ! k) = Some u"
  then have bu: "board s u = Some (ACat k)" using linkedD2 [OF assms(1)] by simp
  then have "u \<noteq> n" using assms(4) by auto
  then show "board ?s' u = Some (ACat k)" using bu by simp
next
  let ?s' = "(set_con_tile j (Some n) s)\<lparr>board := (board s)(n := Some (ACon j))\<rparr>"
  fix k u assume k: "k < length (heap ?s')" "con_tile (heap ?s' ! k) = Some u"
  show "board ?s' u = Some (ACon k)"
  proof (cases "k = j")
    case True
    then show ?thesis using k assms(2) by simp
  next
    case False
    then have "con_tile (heap s ! k) = Some u" "k < length (heap s)" using k by simp_all
    then have bu: "board s u = Some (ACon k)" using linkedD3 [OF assms(1)] by simp
    then have "u \<noteq> n" using assms(4) by auto
    then show ?thesis using bu by simp
  qed
qed

lemma linked_ball_gone:
  assumes "linked s" "board s n = Some (ABall x)"
  shows "linked (s\<lparr>board := (board s)(n := None)\<rparr>)"
proof (rule linkedI)
  let ?s' = "s\<lparr>board := (board s)(n := None)\<rparr>"
  fix u a assume b: "board ?s' u = Some a"
  then have u: "u \<noteq> n" and bs: "board s u = Some a" by (auto split: if_splits)
  have d: "is_actor s a" "actor_tile s a = Some u" using linkedD1 [OF assms(1) bs] by simp_all
  show "is_actor ?s' a \<and> actor_tile ?s' a = Some u"
  proof (cases a)
    case (ACat k)
    then show ?thesis using d by simp
  next
    case (ACon k)
    then show ?thesis using d by simp
  next
    case (ABall y)
    then show ?thesis using d by simp
  qed
next
  let ?s' = "s\<lparr>board := (board s)(n := None)\<rparr>"
  fix k u assume "k < length (cats ?s')" "cat_tile (cats ?s' ! k) = Some u"
  then have bu: "board s u = Some (ACat k)" using linkedD2 [OF assms(1)] by simp
  then have "u \<noteq> n" using assms(2) by auto
  then show "board ?s' u = Some (ACat k)" using bu by simp
next
  let ?s' = "s\<lparr>board := (board s)(n := None)\<rparr>"
  fix k u assume "k < length (heap ?s')" "con_tile (heap ?s' ! k) = Some u"
  then have bu: "board s u = Some (ACon k)" using linkedD3 [OF assms(1)] by simp
  then have "u \<noteq> n" using assms(2) by auto
  then show "board ?s' u = Some (ACon k)" using bu by simp
qed

lemma linked_ball_new:
  assumes "linked s" "board s n = None"
  shows "linked (s\<lparr>balls := balls s @ [Some n],
                   board := (board s)(n := Some (ABall (length (balls s))))\<rparr>)"
proof (rule linkedI)
  let ?s' = "s\<lparr>balls := balls s @ [Some n],
               board := (board s)(n := Some (ABall (length (balls s))))\<rparr>"
  fix u a assume b: "board ?s' u = Some a"
  show "is_actor ?s' a \<and> actor_tile ?s' a = Some u"
  proof (cases "u = n")
    case True
    then have a: "a = ABall (length (balls s))" using b by simp
    then show ?thesis using True by simp
  next
    case False
    then have bs: "board s u = Some a" using b by simp
    have d: "is_actor s a" "actor_tile s a = Some u" using linkedD1 [OF assms(1) bs] by simp_all
    show ?thesis
    proof (cases a)
      case (ACat k)
      then show ?thesis using d by simp
    next
      case (ACon k)
      then show ?thesis using d by simp
    next
      case (ABall y)
      then show ?thesis using d by (simp add: nth_append)
    qed
  qed
next
  let ?s' = "s\<lparr>balls := balls s @ [Some n],
               board := (board s)(n := Some (ABall (length (balls s))))\<rparr>"
  fix k u assume "k < length (cats ?s')" "cat_tile (cats ?s' ! k) = Some u"
  then have bu: "board s u = Some (ACat k)" using linkedD2 [OF assms(1)] by simp
  then have "u \<noteq> n" using assms(2) by auto
  then show "board ?s' u = Some (ACat k)" using bu by simp
next
  let ?s' = "s\<lparr>balls := balls s @ [Some n],
               board := (board s)(n := Some (ABall (length (balls s))))\<rparr>"
  fix k u assume "k < length (heap ?s')" "con_tile (heap ?s' ! k) = Some u"
  then have bu: "board s u = Some (ACon k)" using linkedD3 [OF assms(1)] by simp
  then have "u \<noteq> n" using assms(2) by auto
  then show "board ?s' u = Some (ACon k)" using bu by simp
qed

lemma linked_heap_append:
  assumes "linked s" "con_tile d = None"
  shows "linked (s\<lparr>heap := heap s @ [d]\<rparr>)"
proof (rule linkedI)
  let ?s' = "s\<lparr>heap := heap s @ [d]\<rparr>"
  fix u a assume b: "board ?s' u = Some a"
  then have bs: "board s u = Some a" by simp
  have d: "is_actor s a" "actor_tile s a = Some u" using linkedD1 [OF assms(1) bs] by simp_all
  show "is_actor ?s' a \<and> actor_tile ?s' a = Some u"
  proof (cases a)
    case (ACat k)
    then show ?thesis using d by simp
  next
    case (ACon k)
    then show ?thesis using d by (simp add: nth_append)
  next
    case (ABall y)
    then show ?thesis using d by simp
  qed
next
  let ?s' = "s\<lparr>heap := heap s @ [d]\<rparr>"
  fix k u assume "k < length (cats ?s')" "cat_tile (cats ?s' ! k) = Some u"
  then show "board ?s' u = Some (ACat k)" using linkedD2 [OF assms(1)] by simp
next
  let ?s' = "s\<lparr>heap := heap s @ [d]\<rparr>"
  fix k u assume k: "k < length (heap ?s')" "con_tile (heap ?s' ! k) = Some u"
  then have "k < length (heap s)" using assms(2) by (cases "k = length (heap s)") auto
  then show "board ?s' u = Some (ACon k)" using k linkedD3 [OF assms(1)] by (simp add: nth_append)
qed

subsection \<open>The operations keep tiles and occupants linked\<close>

lemma linked_upd_cat:
  "linked s \<Longrightarrow> (\<And>c. cat_tile (f c) = cat_tile c) \<Longrightarrow> linked (upd_cat i f s)"
  by (rule linked_same_tiles [of s]) (simp_all add: map_update_same)

lemma linked_upd_con:
  "linked s \<Longrightarrow> (\<And>d. con_tile (f d) = con_tile d) \<Longrightarrow> linked (upd_con j f s)"
  by (rule linked_same_tiles [of s]) (simp_all add: map_update_same)

lemma linked_cat_teleport:
  assumes "linked s" "i < length (cats s)" "cat_teleport i n s = Inr s'"
  shows "linked s'"
proof (cases "cat_tile (cats s ! i)")
  case None
  then have "board s n = None"
    "s' = (set_cat_tile i (Some n) s)\<lparr>board := (board s)(n := Some (ACat i))\<rparr>"
    using assms(3) by (auto simp: cat_teleport_def set_actor_eq_Inr)
  then show ?thesis using linked_cat_enters [OF assms(1,2) None] by simp
next
  case (Some t)
  let ?s1 = "s\<lparr>board := (board s)(t := None)\<rparr>"
  let ?s2 = "set_cat_tile i None ?s1"
  have n: "board ?s1 n = None"
    and s': "s' = (set_cat_tile i (Some n) ?s1)\<lparr>board := (board ?s1)(n := Some (ACat i))\<rparr>"
    using assms(3) Some
    by (auto simp: cat_teleport_def and_then_eq_Inr clear_actor_eq_Inr set_actor_eq_Inr)
  have l2: "linked ?s2" using linked_cat_leaves [OF assms(1,2) Some] .
  have "linked ((set_cat_tile i (Some n) ?s2)\<lparr>board := (board ?s2)(n := Some (ACat i))\<rparr>)"
    using assms(2) n by (intro linked_cat_enters [OF l2]) simp_all
  moreover have "(set_cat_tile i (Some n) ?s2)\<lparr>board := (board ?s2)(n := Some (ACat i))\<rparr> = s'"
    using assms(2) unfolding s' by (simp add: set_cat_tile_def upd_cat_def)
  ultimately show ?thesis by simp
qed

lemma linked_Cat_distract:
  assumes "linked s" "i < length (cats s)" "Cat_distract i a s = Inr s'"
  shows "linked s'"
proof -
  let ?s1 = "upd_cat i (\<lambda>c. c\<lparr>attention := attention c - a\<rparr>) s"
  let ?s2 = "upd_cat i (\<lambda>c. c\<lparr>attention := 0, rest_time := needed_rest_time c\<rparr>) ?s1"
  have l1: "linked ?s1" using assms(1) by (rule linked_upd_cat) simp
  have l2: "linked ?s2" using l1 by (rule linked_upd_cat) simp
  show ?thesis
  proof (cases "attention (cats ?s1 ! i) \<le> 0")
    case False
    then have "s' = ?s1" using assms(3) by (auto simp: Cat_distract_def Let_def split: if_splits)
    then show ?thesis using l1 by simp
  next
    case True
    then have r: "cat_remove_from_board i ?s2 = Inr s'"
      using assms(3) by (auto simp: Cat_distract_def Let_def split: if_splits)
    then obtain t where t: "cat_tile (cats ?s2 ! i) = Some t"
      and s': "s' = set_cat_tile i None (?s2\<lparr>board := (board ?s2)(t := None)\<rparr>)"
      by (auto simp: cat_remove_from_board_def and_then_eq_Inr clear_actor_eq_Inr
          split: option.splits)
    have "i < length (cats ?s2)" using assms(2) by simp
    from linked_cat_leaves [OF l2 this t] show ?thesis unfolding s' .
  qed
qed

lemma linked_distract:
  assumes "linked s" "i < length (cats s)" "distract i a s = Inr s'"
  shows "linked s'"
proof (cases "kind (cats s ! i) = Calico")
  case False
  then show ?thesis using assms linked_Cat_distract by (simp add: distract_def)
next
  case True
  then obtain s1 where s1: "Cat_distract i a s = Inr s1"
    and r: "(case cat_tile (cats s1 ! i) of
            None \<Rightarrow> Inr s1
          | Some t \<Rightarrow>
              (case above t of
                 None \<Rightarrow> Inr s1
               | Some tile_above \<Rightarrow>
                   if is_empty s1 tile_above then cat_teleport i tile_above s1 else Inr s1)) = Inr s'"
    using assms(3) by (auto simp: distract_def and_then_eq_Inr)
  have l1: "linked s1" using linked_Cat_distract [OF assms(1,2) s1] .
  have i1: "i < length (cats s1)"
    using Cat_distract_frame [OF s1] assms(2) by (simp add: device_frame_def unit_frame_def)
  show ?thesis
    using r l1 linked_cat_teleport [OF l1 i1]
    by (auto split: option.splits if_splits)
qed

lemma linked_check_space_heater:
  assumes "linked s" "i < length (cats s)" "check_space_heater i s = Inr s'"
  shows "linked s'"
  using assms(3) assms(1) linked_distract [OF assms(1,2)]
  unfolding check_space_heater_def Let_def
  by (auto split: if_splits option.splits)

lemma linked_first_cat:
  assumes "linked s" "first_cat s ts = Some i"
  shows "i < length (cats s)"
  using assms(2)
proof (induction ts)
  case Nil
  then show ?case by simp
next
  case (Cons t ts)
  show ?case
  proof (cases "board s t")
    case None
    then show ?thesis using Cons by simp
  next
    case (Some a)
    then show ?thesis
      using Cons linkedD1 [OF assms(1) Some] by (cases a) auto
  qed
qed

lemma linked_first_cat_distract:
  assumes "linked s"
    "(case first_cat s ts of None \<Rightarrow> Inr s | Some i \<Rightarrow> distract i 1 s) = Inr s'"
  shows "linked s'"
proof (cases "first_cat s ts")
  case None
  then show ?thesis using assms by simp
next
  case (Some i)
  then show ?thesis
    using assms linked_distract [OF assms(1) linked_first_cat [OF assms(1) Some]] by simp
qed

lemma linked_shoot_laser:
  "linked s \<Longrightarrow> shoot_laser (entrance t) s = Inr s' \<Longrightarrow> linked s'"
  unfolding shoot_laser_entrance by (rule linked_first_cat_distract)

lemma linked_con_end_round:
  assumes "linked s" "con_end_round j s = Inr s'"
  shows "linked s'"
proof (cases "ckind (heap s ! j)")
  case LaserPointer
  then show ?thesis using assms linked_shoot_laser
    by (cases "con_tile (heap s ! j)") (auto simp: con_end_round_def simp del: shoot_laser.simps)
next
  case SnackDispenser
  then show ?thesis using assms by (simp add: con_end_round_def)
next
  case BatteryCharger
  let ?f = "\<lambda>d. d\<lparr>ready := \<not> ready d\<rparr>"
  have "s' = upd_con j ?f s \<or> s' = upd_con j ?f (s\<lparr>batteries := batteries s + 1\<rparr>)"
    using assms(2) BatteryCharger
    by (auto simp: con_end_round_def and_then_eq_Inr update_battery_text_def split: if_splits)
  moreover have "linked (s\<lparr>batteries := batteries s + 1\<rparr>)"
    using assms(1) by (rule linked_same_tiles) simp_all
  ultimately show ?thesis using assms(1) linked_upd_con [of _ ?f j] by auto
next
  case BallThrower
  then show ?thesis using assms linked_first_cat_distract
    by (cases "con_tile (heap s ! j)") (auto simp: con_end_round_def throw_ball_entrance)
next
  case TripleLaserPointer
  obtain t where t: "con_tile (heap s ! j) = Some t"
    using assms(2) TripleLaserPointer
    by (cases "con_tile (heap s ! j)") (simp_all add: con_end_round_def)
  have "and_then (shoot_laser (entrance t) s) (\<lambda>s1.
          and_then
            (case above t of None \<Rightarrow> Inr s1 | Some ta \<Rightarrow> shoot_laser (entrance ta) s1)
            (\<lambda>s2. case below (lane_count s2) t of
                     None \<Rightarrow> Inr s2
                   | Some tb \<Rightarrow> shoot_laser (entrance tb) s2)) = Inr s'"
    using assms(2) TripleLaserPointer t by (simp add: con_end_round_def)
  then obtain s1 s2 where s1: "shoot_laser (entrance t) s = Inr s1"
    and s2: "(case above t of None \<Rightarrow> Inr s1 | Some ta \<Rightarrow> shoot_laser (entrance ta) s1) = Inr s2"
    and s3: "(case below (lane_count s2) t of None \<Rightarrow> Inr s2
              | Some tb \<Rightarrow> shoot_laser (entrance tb) s2) = Inr s'"
    unfolding and_then_eq_Inr by blast
  have l1: "linked s1" using linked_shoot_laser [OF assms(1) s1] .
  have l2: "linked s2"
  proof (cases "above t")
    case None
    then show ?thesis using s2 l1 by simp
  next
    case (Some ta)
    then show ?thesis using s2 linked_shoot_laser [OF l1, of ta s2] by simp
  qed
  show ?thesis
  proof (cases "below (lane_count s2) t")
    case None
    then show ?thesis using s3 l2 by simp
  next
    case (Some tb)
    then show ?thesis using s3 linked_shoot_laser [OF l2, of tb s'] by simp
  qed
next
  case ColorfulBallThrower
  obtain t where t: "con_tile (heap s ! j) = Some t"
    using assms(2) ColorfulBallThrower
    by (cases "con_tile (heap s ! j)") (simp_all add: con_end_round_def)
  show ?thesis
  proof (cases "first_cat s (take 3 (lane_ahead t))")
    case (Some i)
    then have "distract i 1 s = Inr s'"
      using assms(2) ColorfulBallThrower t by (simp add: con_end_round_def find_cat_entrance)
    then show ?thesis
      using linked_distract [OF assms(1) linked_first_cat [OF assms(1) Some]] by simp
  next
    case None
    show ?thesis
    proof (cases "find_last_empty (entrance t) 0 None s")
      case None
      then show ?thesis
        using assms \<open>first_cat s (take 3 (lane_ahead t)) = None\<close> ColorfulBallThrower t
        by (simp add: con_end_round_def find_cat_entrance)
    next
      case (Some u)
      then have "new_ball_teleport u s = Inr s'"
        using assms(2) \<open>first_cat s (take 3 (lane_ahead t)) = None\<close> ColorfulBallThrower t
        by (simp add: con_end_round_def find_cat_entrance)
      then have "board s u = None"
        "s' = s\<lparr>balls := balls s @ [Some u],
                 board := (board s)(u := Some (ABall (length (balls s))))\<rparr>"
        by (auto simp: new_ball_teleport_def Let_def and_then_eq_Inr set_actor_eq_Inr)
      then show ?thesis using linked_ball_new [OF assms(1)] by simp
    qed
  qed
next
  case SpaceHeater
  then show ?thesis using assms by (simp add: con_end_round_def)
qed

lemma linked_contraptions_loop:
  "linked s \<Longrightarrow> contraptions_loop js s = Inr s' \<Longrightarrow> linked s'"
proof (induction js arbitrary: s)
  case Nil
  then show ?case by simp
next
  case (Cons j js)
  then obtain s1 where "con_end_round j s = Inr s1" "contraptions_loop js s1 = Inr s'"
    by (auto simp: and_then_eq_Inr)
  then show ?case using Cons.IH Cons.prems(1) linked_con_end_round by blast
qed

lemma linked_Contraption_interact:
  assumes "linked s" "j < length (heap s)" "Contraption_interact j s = Inr s'"
  shows "linked s'"
proof -
  obtain t where t: "con_tile (heap s ! j) = Some t"
    and s': "s' = (set_con_tile j None (s\<lparr>board := (board s)(t := None)\<rparr>))
                   \<lparr>contraptions := remove1 j (contraptions s)\<rparr>"
    using assms(3)
    by (auto simp: Contraption_interact_def and_then_eq_Inr clear_actor_eq_Inr
        remove_contraption_def split: option.splits if_splits)
  have "linked (set_con_tile j None (s\<lparr>board := (board s)(t := None)\<rparr>))"
    using linked_con_leaves [OF assms(1,2) t] .
  then show ?thesis unfolding s' by (rule linked_same_tiles) simp_all
qed

lemma linked_interact:
  assumes "linked s" "j < length (heap s)" "interact j s = Inr s'"
  shows "linked s'"
proof (cases "ckind (heap s ! j) = SnackDispenser")
  case False
  then show ?thesis using assms linked_Contraption_interact by (simp add: interact_def)
next
  case True
  let ?s1 = "upd_con j (\<lambda>d. d\<lparr>uses := uses d - 1\<rparr>) s"
  have l1: "linked ?s1" using assms(1) by (rule linked_upd_con) simp
  have "j < length (heap ?s1)" using assms(2) by simp
  then show ?thesis
    using assms(3) True l1 linked_Contraption_interact [OF l1]
    by (auto simp: interact_def Let_def split: if_splits)
qed

lemma move_ahead:
  assumes "cat_tile (cats s ! i) = Some t" "exit t = Some n"
  shows "move i s =
     (if is_ball (board s n) then
        and_then (clear_actor n s) (\<lambda>s1.
          and_then (cat_teleport i n s1) (\<lambda>s2.
            and_then (distract i 1 s2) (check_space_heater i)))
      else if is_empty s n then
        and_then (cat_teleport i n s) (check_space_heater i)
      else
        (case board s n of
           Some (ACon j) \<Rightarrow> interact j s
         | _ \<Rightarrow> Inr s))"
  unfolding move_def assms option.case by (rule refl)

lemma move_goal:
  assumes "cat_tile (cats s ! i) = Some t" "exit t = None"
  shows "move i s = and_then (manager s) lose_game"
  unfolding move_def assms option.case by (rule refl)

lemma linked_move:
  assumes "linked s" "i < length (cats s)" "move i s = Inr s'"
  shows "linked s'"
proof -
  obtain t where t: "cat_tile (cats s ! i) = Some t"
    using assms(3) by (cases "cat_tile (cats s ! i)") (simp_all add: move_def)
  show ?thesis
  proof (cases "exit t")
    case None
    have "and_then (manager s) lose_game = Inr s'"
      using assms(3) unfolding move_goal [OF t None] .
    then have "s' = lost s"
      by (auto simp: and_then_eq_Inr lose_game_def destroy_def lost_def split: if_splits)
    then have "board s' = board s" "map cat_tile (cats s') = map cat_tile (cats s)"
      "map con_tile (heap s') = map con_tile (heap s)" "balls s' = balls s"
      by (simp_all add: lost_def)
    then show ?thesis using assms(1) linked_same_tiles by blast
  next
    case (Some n)
    note mv = assms(3) [unfolded move_ahead [OF t Some]]
    consider (ball) "is_ball (board s n)" | (empty) "\<not> is_ball (board s n)" "is_empty s n"
      | (other) "\<not> is_ball (board s n)" "\<not> is_empty s n" by blast
    then show ?thesis
    proof cases
      case ball
      then obtain x where x: "board s n = Some (ABall x)"
        by (auto simp: is_ball_def split: option.splits actor.splits)
      have "and_then (clear_actor n s) (\<lambda>s1.
          and_then (cat_teleport i n s1) (\<lambda>s2.
            and_then (distract i 1 s2) (check_space_heater i))) = Inr s'"
        using mv ball by (simp only: if_True)
      then obtain s1 s2 s3 where s1: "clear_actor n s = Inr s1" and s2: "cat_teleport i n s1 = Inr s2"
        and s3: "distract i 1 s2 = Inr s3" and s4: "check_space_heater i s3 = Inr s'"
        unfolding and_then_eq_Inr by blast
      have e1: "s1 = s\<lparr>board := (board s)(n := None)\<rparr>"
        using s1 by (simp add: clear_actor_eq_Inr)
      have l1: "linked s1" unfolding e1 using linked_ball_gone [OF assms(1) x] .
      have i1: "i < length (cats s1)" using assms(2) e1 by simp
      have l2: "linked s2" using linked_cat_teleport [OF l1 i1 s2] .
      have i2: "i < length (cats s2)"
        using cat_teleport_frame [OF s2] i1 by (simp add: device_frame_def unit_frame_def)
      have l3: "linked s3" using linked_distract [OF l2 i2 s3] .
      have i3: "i < length (cats s3)"
        using distract_frame [OF s3] i2 by (simp add: device_frame_def unit_frame_def)
      show ?thesis using linked_check_space_heater [OF l3 i3 s4] .
    next
      case empty
      have "and_then (cat_teleport i n s) (check_space_heater i) = Inr s'"
        using mv empty by (simp only: if_True if_False)
      then obtain s1 where s1: "cat_teleport i n s = Inr s1" and s2: "check_space_heater i s1 = Inr s'"
        unfolding and_then_eq_Inr by blast
      have l1: "linked s1" using linked_cat_teleport [OF assms(1,2) s1] .
      have i1: "i < length (cats s1)"
        using cat_teleport_frame [OF s1] assms(2) by (simp add: device_frame_def unit_frame_def)
      show ?thesis using linked_check_space_heater [OF l1 i1 s2] .
    next
      case other
      have r: "(case board s n of Some (ACon j) \<Rightarrow> interact j s | _ \<Rightarrow> Inr s) = Inr s'"
        using mv other by (simp only: if_False)
      obtain a where a: "board s n = Some a" using other(2) by (auto simp: is_empty_def)
      show ?thesis
      proof (cases a)
        case (ACat k)
        then have "s' = s" using r a by simp
        then show ?thesis using assms(1) by simp
      next
        case (ACon j)
        then have "j < length (heap s)" using linkedD1 [OF assms(1) a] by simp
        moreover have "interact j s = Inr s'" using r a ACon by simp
        ultimately show ?thesis using linked_interact [OF assms(1)] by simp
      next
        case (ABall x)
        then show ?thesis using other(1) a by (simp add: is_ball_def)
      qed
    qed
  qed
qed

lemma linked_rest:
  assumes "linked s" "i < length (cats s)" "rest i d s = Inr s'"
  shows "linked s'"
proof -
  let ?s1 = "upd_cat i (\<lambda>c. c\<lparr>rest_time := rest_time c - 1\<rparr>) s"
  let ?lanes = "filter (is_empty ?s1) (map get_lane_entrance [0..<lane_count ?s1])"
  let ?s3 = "upd_cat i (\<lambda>c. c\<lparr>attention := starting_attention c\<rparr>) ?s1"
  have l1: "linked ?s1" using assms(1) by (rule linked_upd_cat) simp
  show ?thesis
  proof (cases "rest_time (cats ?s1 ! i) = 0")
    case False
    then have "s' = ?s1" using assms(3) by (simp add: rest_def Let_def)
    then show ?thesis using l1 by simp
  next
    case zero: True
    have m: "initialized ?s1"
      using assms(3) zero by (auto simp only: rest_def Let_def and_then_eq_Inr manager_eq_Inr
          split: if_splits)
    then have r: "(if length ?lanes = 0 then Inr (upd_cat i (\<lambda>c. c\<lparr>rest_time := 1\<rparr>) ?s1)
          else cat_teleport i (?lanes ! (d mod length ?lanes)) ?s3) = Inr s'"
      using assms(3) zero unfolding rest_def Let_def manager_def by simp
    show ?thesis
    proof (cases "length ?lanes = 0")
      case True
      then have "s' = upd_cat i (\<lambda>c. c\<lparr>rest_time := 1\<rparr>) ?s1" using r by simp
      then show ?thesis using linked_upd_cat [OF l1, of "\<lambda>c. c\<lparr>rest_time := 1\<rparr>" i] by simp
    next
      case False
      then have tp: "cat_teleport i (?lanes ! (d mod length ?lanes)) ?s3 = Inr s'"
        using r by simp
      have l3: "linked ?s3" using l1 by (rule linked_upd_cat) simp
      have i3: "i < length (cats ?s3)" using assms(2) by simp
      show ?thesis using linked_cat_teleport [OF l3 i3 tp] .
    qed
  qed
qed

lemma linked_cat_end_round:
  assumes "linked s" "i < length (cats s)" "cat_end_round i d s = Inr s'"
  shows "linked s'"
proof (cases "cat_is_on_board s i")
  case False
  then show ?thesis using assms linked_rest by (auto simp: cat_end_round_def split: if_splits)
next
  case True
  show ?thesis
  proof (cases "kind (cats s ! i) = Kitten")
    case False
    then show ?thesis using assms True linked_move by (simp add: cat_end_round_def)
  next
    case Kitten: True
    then obtain s1 where s1: "move i s = Inr s1"
      and r: "(if cat_is_on_board s1 i then move i s1 else Inr s1) = Inr s'"
      using assms(3) True by (auto simp: cat_end_round_def and_then_eq_Inr)
    have l1: "linked s1" using linked_move [OF assms(1,2) s1] .
    have i1: "i < length (cats s1)"
      using move_frame [OF s1] assms(2) by (simp add: unit_frame_def)
    show ?thesis using r l1 linked_move [OF l1 i1] by (auto split: if_splits)
  qed
qed

lemma linked_increment_round:
  assumes "linked s" "increment_round s = Inr s'"
  shows "linked s'"
proof -
  have "board s' = board s \<and> cats s' = cats s \<and> heap s' = heap s \<and> balls s' = balls s"
    using assms(2)
    by (auto simp: increment_round_def Let_def win_game_def destroy_def split: if_splits)
  then show ?thesis using assms(1) linked_same_tiles [of s s'] by simp
qed

lemma linked_cats_loop:
  "linked s \<Longrightarrow> \<forall>i \<in> set is. i < length (cats s) \<Longrightarrow> cats_loop draw is s = Inr s' \<Longrightarrow>
   linked s'"
proof (induction "is" arbitrary: s)
  case Nil
  then show ?case using linked_increment_round by simp
next
  case (Cons i "is")
  then obtain s1 where s1: "cat_end_round i (draw i) s = Inr s1"
    and r: "(if game_ended s1 then Inr s1 else cats_loop draw is s1) = Inr s'"
    by (auto simp: and_then_eq_Inr)
  have l1: "linked s1" using linked_cat_end_round [OF Cons.prems(1) _ s1] Cons.prems(2) by simp
  have len: "length (cats s1) = length (cats s)"
    using cat_end_round_frame [OF s1] by (simp add: unit_frame_def)
  show ?case
  proof (cases "game_ended s1")
    case True
    then show ?thesis using r l1 by simp
  next
    case False
    then have "cats_loop draw is s1 = Inr s'" using r by simp
    then show ?thesis using Cons.IH [OF l1] Cons.prems(2) len by simp
  qed
qed

lemma linked_end_round:
  assumes "linked s" "end_round draw s = Inr s'"
  shows "linked s'"
proof -
  obtain s1 s2 where s1: "add_batteries 1 s = Inr s1"
    and s2: "contraptions_loop (contraptions s1) s1 = Inr s2"
    and s3: "cats_loop draw [0..<length (cats s2)] s2 = Inr s'"
    using assms(2) unfolding end_round_def and_then_eq_Inr by blast
  have "s1 = s\<lparr>batteries := batteries s + 1\<rparr>"
    using s1 by (auto simp: add_batteries_def update_battery_text_def split: if_splits)
  then have "linked s1" using assms(1) linked_same_tiles [of s s1] by simp
  then have "linked s2" using linked_contraptions_loop s2 by blast
  then show ?thesis using linked_cats_loop [OF _ _ s3] by simp
qed

lemma linked_placed:
  assumes "linked s" "board s t = None"
  shows "linked (placed k t s)"
proof -
  let ?d = "new_contraption k"
  let ?j = "length (heap s)"
  let ?s1 = "s\<lparr>heap := heap s @ [?d]\<rparr>"
  let ?s2 = "(set_con_tile ?j (Some t) ?s1)\<lparr>board := (board ?s1)(t := Some (ACon ?j))\<rparr>"
  have l1: "linked ?s1"
    using assms(1) by (rule linked_heap_append) (simp add: new_contraption_def)
  have l2: "linked ?s2"
    using assms(2) by (intro linked_con_enters [OF l1]) (simp_all add: new_contraption_def)
  have "board (placed k t s) = board ?s2" "map cat_tile (cats (placed k t s)) = map cat_tile (cats ?s2)"
    "map con_tile (heap (placed k t s)) = map con_tile (heap ?s2)"
    "balls (placed k t s) = balls ?s2"
    by (simp_all add: placed_def)
  then show ?thesis using l2 linked_same_tiles by blast
qed

lemma clicked_cases:
  assumes "clicked t s = Inr s'"
  shows "s' = s \<or> (\<exists>k. board s t = None \<and> s' = placed k t s)"
proof (cases "selected s")
  case None
  then show ?thesis using assms by (auto simp: clicked_def and_then_eq_Inr)
next
  case (Some k)
  have i: "initialized s" using assms by (auto simp: clicked_def and_then_eq_Inr)
  show ?thesis
  proof (cases "entrance t \<noteq> None \<and> is_empty s t \<and> cost_of k \<le> batteries s")
    case False
    then show ?thesis using assms Some i by (auto simp: clicked_def manager_def)
  next
    case True
    then have "clicked t s = Inr (placed k t s)"
      using i Some cost_of_nonneg [of k]
      by (simp add: clicked_def manager_def spend_batteries_def update_battery_text_def
          place_def add_contraption_def con_teleport_def new_contraption_def set_actor_def
          set_con_tile_def upd_con_def is_empty_def placed_def)
    then show ?thesis using assms True by (auto simp: is_empty_def)
  qed
qed

lemma linked_clicked:
  assumes "linked s" "clicked t s = Inr s'"
  shows "linked s'"
proof -
  consider "s' = s" | k where "board s t = None" "s' = placed k t s"
    using clicked_cases [OF assms(2)] by blast
  then show ?thesis
  proof cases
    case 1
    then show ?thesis using assms(1) by simp
  next
    case 2
    then show ?thesis using linked_placed [OF assms(1) 2(1), of k] by simp
  qed
qed

lemma new_cats_off_board: "new_cats specs = Inr cs \<Longrightarrow> \<forall>c \<in> set cs. cat_tile c = None"
proof (induction specs arbitrary: cs)
  case Nil
  then show ?case by simp
next
  case (Cons p specs)
  obtain k r where p: "p = (k, r)" by (cases p)
  from Cons.prems obtain c cs' where c: "new_cat k r = Inr c" and cs': "new_cats specs = Inr cs'"
    and cs: "cs = c # cs'"
    unfolding p by (auto simp: and_then_eq_Inr)
  have "cat_tile c = None"
    using c by (cases k) (auto simp: new_cat_def Cat_init_def split: if_splits)
  then show ?case using Cons.IH [OF cs'] cs by simp
qed

lemma linked_initialize:
  assumes "initialize lanes specs = Inr s"
  shows "linked s \<and> lane_count s = lanes"
proof -
  obtain cs where cs: "new_cats specs = Inr cs"
    and s: "s = \<lparr>lane_count = lanes, board = (\<lambda>t. None), cats = cs, heap = [], balls = [],
            contraptions = [], batteries = STARTING_BATTERIES, rounds = 0, game_ended = False,
            initialized = True, selected = None, printed = []\<rparr>"
    using assms by (auto simp: initialize_def and_then_eq_Inr)
  have off: "\<And>i. i < length cs \<Longrightarrow> cat_tile (cs ! i) = None"
    using new_cats_off_board [OF cs] by simp
  have "linked s"
    by (rule linkedI) (simp_all add: s off)
  then show ?thesis by (simp add: s)
qed

lemma linked_step:
  assumes "linked s" "step c s = Inr s'"
  shows "linked s'"
proof (cases c)
  case (Select k)
  then have "s' = s\<lparr>selected := Some k\<rparr>"
    using assms(2) by (auto simp: set_current_selector_def and_then_eq_Inr)
  then show ?thesis using assms(1) linked_same_tiles [of s s'] by simp
next
  case (Click t)
  then show ?thesis using assms linked_clicked by simp
next
  case (EndTurn draw)
  then have "end_round draw (s\<lparr>selected := None\<rparr>) = Inr s'"
    using assms(2) by (auto simp: end_turn_clicked_def and_then_eq_Inr)
  moreover have "linked (s\<lparr>selected := None\<rparr>)"
    using assms(1) linked_same_tiles [of s "s\<lparr>selected := None\<rparr>"] by simp
  ultimately show ?thesis using linked_end_round by blast
qed

lemma reachable_linked: "reachable s \<Longrightarrow> linked s"
proof (induction rule: reachable.induct)
  case (new_game lanes cat_specs s)
  then show ?case using linked_initialize by blast
next
  case (select s k s')
  then show ?case using linked_step by blast
next
  case (click s t s')
  then show ?case using linked_step by blast
next
  case (end_turn s draw s')
  then show ?case using linked_step by blast
qed

lemma cats_loop_lane_count: "cats_loop draw is s = Inr s' \<Longrightarrow> lane_count s' = lane_count s"
proof (induction "is" arbitrary: s)
  case Nil
  then show ?case
    by (auto simp: increment_round_def Let_def win_game_def destroy_def split: if_splits)
next
  case (Cons i "is")
  then obtain s1 where s1: "cat_end_round i (draw i) s = Inr s1"
    and r: "(if game_ended s1 then Inr s1 else cats_loop draw is s1) = Inr s'"
    by (auto simp: and_then_eq_Inr)
  have "lane_count s1 = lane_count s"
    using cat_end_round_frame [OF s1] by (simp add: unit_frame_def)
  moreover have "lane_count s' = lane_count s1"
    using r Cons.IH [of s1] by (cases "game_ended s1") simp_all
  ultimately show ?case by simp
qed

lemma step_lane_count: "step c s = Inr s' \<Longrightarrow> lane_count s' = lane_count s"
proof (cases c)
  case (Select k)
  assume "step c s = Inr s'"
  then show ?thesis using Select by (auto simp: set_current_selector_def and_then_eq_Inr)
next
  case (Click t)
  assume "step c s = Inr s'"
  then have "clicked t s = Inr s'" using Click by simp
  from clicked_cases [OF this] show ?thesis by (auto simp: placed_def)
next
  case (EndTurn draw)
  assume "step c s = Inr s'"
  then have "end_round draw (s\<lparr>selected := None\<rparr>) = Inr s'"
    using EndTurn by (auto simp: end_turn_clicked_def and_then_eq_Inr)
  then obtain s1 s2 where s1: "add_batteries 1 (s\<lparr>selected := None\<rparr>) = Inr s1"
    and s2: "contraptions_loop (contraptions s1) s1 = Inr s2"
    and s3: "cats_loop draw [0..<length (cats s2)] s2 = Inr s'"
    unfolding end_round_def and_then_eq_Inr by blast
  have "lane_count s1 = lane_count s"
    using s1 by (auto simp: add_batteries_def update_battery_text_def split: if_splits)
  moreover have "lane_count s2 = lane_count s1"
    using contraptions_loop_frame [OF s2] by (simp add: device_frame_def unit_frame_def)
  ultimately show ?thesis using cats_loop_lane_count [OF s3] by simp
qed

lemma reachable_step:
  assumes "reachable s" "command_ok (lane_count s) c" "step c s = Inr s'"
  shows "reachable s'"
proof (cases c)
  case (Select k)
  then show ?thesis using assms reachable.select by blast
next
  case (Click t)
  then show ?thesis using assms reachable.click by simp
next
  case (EndTurn draw)
  then show ?thesis using assms reachable.end_turn by blast
qed

lemma reachable_run:
  "reachable s \<Longrightarrow> list_all (command_ok (lane_count s)) cs \<Longrightarrow> run cs s = Inr s' \<Longrightarrow>
   reachable s'"
proof (induction cs arbitrary: s)
  case Nil
  then show ?case by simp
next
  case (Cons c cs)
  then obtain s1 where s1: "step c s = Inr s1" and r: "run cs s1 = Inr s'"
    by (auto simp: and_then_eq_Inr)
  have r1: "reachable s1" using reachable_step [OF Cons.prems(1) _ s1] Cons.prems(2) by simp
  have "lane_count s1 = lane_count s" using step_lane_count [OF s1] .
  then show ?case using Cons.IH [OF r1 _ r] Cons.prems(2) by simp
qed

lemma reachable_play:
  assumes "play lanes specs cs = Inr s" "list_all (command_ok lanes) cs"
  shows "reachable s"
proof -
  obtain s0 where s0: "initialize lanes specs = Inr s0" and r: "run cs s0 = Inr s"
    using assms(1) unfolding play_def and_then_eq_Inr by blast
  have "reachable s0" using s0 by (rule reachable.new_game)
  moreover have "lane_count s0 = lanes" using linked_initialize [OF s0] by simp
  ultimately show ?thesis using reachable_run [OF _ _ r] assms(2) by simp
qed

lemma reachable_occupancy:
  assumes "reachable s"
  shows "occupants_point_back s
       \<and> (\<forall>a b t. is_actor s a \<and> is_actor s b \<and> actor_tile s a = Some t
              \<and> actor_tile s b = Some t \<and> a \<noteq> b
            \<longrightarrow> (\<exists>x. (a = ABall x \<or> b = ABall x) \<and> board s t \<noteq> Some (ABall x)))"
  using reachable_linked [OF assms] by (rule linked_claim)


lemma furthest_empty_Nil: "furthest_empty s [] = None"
  by (simp add: furthest_empty_def)

lemma furthest_empty_Cons:
  "furthest_empty s (x # xs) =
     (case furthest_empty s xs of
        Some u \<Rightarrow> Some u
      | None \<Rightarrow> if is_empty s x then Some x else None)"
  by (auto simp: furthest_empty_def split: list.splits)

lemma find_last_empty_None: "find_last_empty None k acc s = acc"
  by (subst find_last_empty.simps) simp

lemma find_last_empty_Some:
  "find_last_empty (Some t) k acc s =
     (if k < 3 then find_last_empty (entrance t) (Suc k) (if is_empty s t then Some t else acc) s
      else acc)"
  by (subst find_last_empty.simps) simp

lemma find_last_empty_from:
  "c < LANE_WIDTH \<Longrightarrow>
   find_last_empty (Some (r, c)) k acc s =
     (case furthest_empty s (take (3 - k) (map (Pair r) [c..<LANE_WIDTH])) of
        None \<Rightarrow> acc | Some u \<Rightarrow> Some u)"
proof (induction "3 - k" arbitrary: c k acc)
  case 0
  then show ?case by (simp add: find_last_empty_Some furthest_empty_Nil)
next
  case (Suc n)
  have cons: "[c..<LANE_WIDTH] = c # [Suc c..<LANE_WIDTH]"
    using Suc.prems by (simp add: upt_conv_Cons)
  have k: "k < 3" "3 - k = Suc (3 - Suc k)" using Suc.hyps(2) by auto
  show ?case
  proof (cases "Suc c < LANE_WIDTH")
    case True
    have "n = 3 - Suc k" using Suc.hyps(2) by simp
    from Suc.hyps(1) [OF this True]
    have IH: "find_last_empty (Some (r, Suc c)) (Suc k) acc' s =
       (case furthest_empty s (take (3 - Suc k) (map (Pair r) [Suc c..<LANE_WIDTH])) of
          None \<Rightarrow> acc' | Some u \<Rightarrow> Some u)" for acc' .
    show ?thesis
      unfolding find_last_empty_Some [of "(r, c)"] cons k(2)
      using True k(1) IH by (simp add: furthest_empty_Cons split: option.splits)
  next
    case False
    then have "[Suc c..<LANE_WIDTH] = []" by simp
    with False k(1) show ?thesis
      unfolding find_last_empty_Some [of "(r, c)"] cons k(2)
      by (simp add: find_last_empty_None furthest_empty_Cons furthest_empty_Nil)
  qed
qed

lemma find_last_empty_entrance:
  "find_last_empty (entrance t) 0 None s = furthest_empty s (take 3 (lane_ahead t))"
proof (cases t)
  case (Pair r c)
  show ?thesis
  proof (cases "Suc c < LANE_WIDTH")
    case True
    then show ?thesis using Pair find_last_empty_from [of "Suc c" r 0 None s]
      by (simp add: lane_ahead_def split: option.splits)
  next
    case False
    then show ?thesis using Pair
      by (simp add: lane_ahead_def find_last_empty_None furthest_empty_Nil)
  qed
qed

lemma shoot_laser_distract_first:
  "shoot_laser (entrance t) s = distract_first (lane_ahead t) s"
  by (simp only: shoot_laser_entrance distract_first_def)

lemma distract_first_frame: "distract_first ts s = Inr s' \<Longrightarrow> device_frame s s'"
  unfolding distract_first_def by (rule first_cat_distract_frame)

lemma triple_laser_lanes:
  assumes "con_tile (heap s ! j) = Some t" "ckind (heap s ! j) = TripleLaserPointer"
  shows "con_end_round j s =
     and_then (distract_first (lane_ahead t) s) (\<lambda>s1.
       and_then
         (case above t of None \<Rightarrow> Inr s1 | Some ta \<Rightarrow> distract_first (lane_ahead ta) s1)
         (\<lambda>s2. case below (lane_count s) t of
                  None \<Rightarrow> Inr s2
                | Some tb \<Rightarrow> distract_first (lane_ahead tb) s2))"
proof -
  have unfold: "con_end_round j s =
     and_then (distract_first (lane_ahead t) s) (\<lambda>s1.
       and_then
         (case above t of None \<Rightarrow> Inr s1 | Some ta \<Rightarrow> distract_first (lane_ahead ta) s1)
         (\<lambda>s2. case below (lane_count s2) t of
                  None \<Rightarrow> Inr s2
                | Some tb \<Rightarrow> distract_first (lane_ahead tb) s2))"
    using assms
    by (simp add: con_end_round_def shoot_laser_distract_first del: shoot_laser.simps
        cong: option.case_cong)
  show ?thesis
  proof (cases "distract_first (lane_ahead t) s")
    case (Inl e)
    then show ?thesis unfolding unfold by simp
  next
    case (Inr s1)
    have l1: "lane_count s1 = lane_count s"
      using distract_first_frame [OF Inr] by (simp add: device_frame_def unit_frame_def)
    show ?thesis
    proof (cases "case above t of None \<Rightarrow> Inr s1 | Some ta \<Rightarrow> distract_first (lane_ahead ta) s1")
      case (Inl e)
      then show ?thesis unfolding unfold \<open>distract_first (lane_ahead t) s = Inr s1\<close> by simp
    next
      case second: (Inr s2)
      have "lane_count s2 = lane_count s1"
        using second distract_first_frame [of _ s1 s2]
        by (cases "above t") (auto simp: device_frame_def unit_frame_def)
      then show ?thesis
        unfolding unfold \<open>distract_first (lane_ahead t) s = Inr s1\<close> using second l1 by simp
    qed
  qed
qed

text \<open>
  Claim C9, amended. A scan by \<^verbatim>\<open>entrance()\<close> from a contraption's tile visits the tiles
  of \<open>lane_ahead\<close>, each once and nearest first, and stops only at the first cat: empty
  tiles and tiles that hold a contraption or a ball are passed alike. The laser pointer
  distracts by 1 the first cat of the whole lane ahead; the triple laser pointer does the same
  on its own lane, then on the lane above and then on the lane below, from the tiles beside
  its own; the ball thrower distracts the first cat among the next three tiles; the colorful
  ball thrower does the same and, when none of the three tiles holds a cat, lays a ball on the
  furthest empty one of them. No cat is touched when the scan finds none, and the distraction
  takes exactly 1 from a positive attention.
\<close>

theorem scans_stop_at_first_cat:
  assumes "con_tile (heap s ! j) = Some t"
  shows "(ckind (heap s ! j) = LaserPointer \<longrightarrow>
            con_end_round j s =
              (case first_cat s (lane_ahead t) of None \<Rightarrow> Inr s | Some i \<Rightarrow> distract i 1 s))
       \<and> (ckind (heap s ! j) = BallThrower \<longrightarrow>
            con_end_round j s =
              (case first_cat s (take 3 (lane_ahead t)) of
                 None \<Rightarrow> Inr s | Some i \<Rightarrow> distract i 1 s))
       \<and> (ckind (heap s ! j) = TripleLaserPointer \<longrightarrow>
            con_end_round j s =
              and_then (distract_first (lane_ahead t) s) (\<lambda>s1.
                and_then
                  (case above t of
                     None \<Rightarrow> Inr s1 | Some ta \<Rightarrow> distract_first (lane_ahead ta) s1)
                  (\<lambda>s2. case below (lane_count s) t of
                           None \<Rightarrow> Inr s2 | Some tb \<Rightarrow> distract_first (lane_ahead tb) s2)))
       \<and> (ckind (heap s ! j) = ColorfulBallThrower \<longrightarrow>
            con_end_round j s =
              (case first_cat s (take 3 (lane_ahead t)) of
                 Some i \<Rightarrow> distract i 1 s
               | None \<Rightarrow>
                   (case furthest_empty s (take 3 (lane_ahead t)) of
                      None \<Rightarrow> Inr s | Some u \<Rightarrow> new_ball_teleport u s)))
       \<and> find_cat (entrance t) 0 s = first_cat s (take 3 (lane_ahead t))
       \<and> distinct (lane_ahead t)
       \<and> (\<forall>i s'. i < length (cats s) \<and> 1 \<le> attention (cats s ! i)
              \<and> distract i 1 s = Inr s'
              \<longrightarrow> attention (cats s' ! i) = attention (cats s ! i) - 1)"
proof -
  have laser: "ckind (heap s ! j) = LaserPointer \<longrightarrow>
            con_end_round j s =
              (case first_cat s (lane_ahead t) of None \<Rightarrow> Inr s | Some i \<Rightarrow> distract i 1 s)"
    using assms by (simp add: con_end_round_def shoot_laser_entrance)
  have thrower: "ckind (heap s ! j) = BallThrower \<longrightarrow>
            con_end_round j s =
              (case first_cat s (take 3 (lane_ahead t)) of
                 None \<Rightarrow> Inr s | Some i \<Rightarrow> distract i 1 s)"
    using assms by (simp add: con_end_round_def throw_ball_entrance)
  have triple: "ckind (heap s ! j) = TripleLaserPointer \<longrightarrow>
            con_end_round j s =
              and_then (distract_first (lane_ahead t) s) (\<lambda>s1.
                and_then
                  (case above t of
                     None \<Rightarrow> Inr s1 | Some ta \<Rightarrow> distract_first (lane_ahead ta) s1)
                  (\<lambda>s2. case below (lane_count s) t of
                           None \<Rightarrow> Inr s2 | Some tb \<Rightarrow> distract_first (lane_ahead tb) s2))"
    using triple_laser_lanes [OF assms] by blast
  have colorful: "ckind (heap s ! j) = ColorfulBallThrower \<longrightarrow>
            con_end_round j s =
              (case first_cat s (take 3 (lane_ahead t)) of
                 Some i \<Rightarrow> distract i 1 s
               | None \<Rightarrow>
                   (case furthest_empty s (take 3 (lane_ahead t)) of
                      None \<Rightarrow> Inr s | Some u \<Rightarrow> new_ball_teleport u s))"
    using assms
    by (simp add: con_end_round_def find_cat_entrance find_last_empty_entrance
        split: option.splits)
  have dist: "distinct (lane_ahead t)"
    by (cases t) (simp add: lane_ahead_def distinct_map inj_on_def)
  have att: "\<forall>i s'. i < length (cats s) \<and> 1 \<le> attention (cats s ! i)
              \<and> distract i 1 s = Inr s'
              \<longrightarrow> attention (cats s' ! i) = attention (cats s ! i) - 1"
    using distract_one_attention by blast
  show ?thesis
    using laser thrower triple colorful dist find_cat_entrance [of t s] att
    by (intro conjI)
qed

theorem scans_stop_at_first_cat_witness:
  "con_tile (heap (scan_game LaserPointer) ! 0) = Some (0, 1)
   \<and> board (scan_game LaserPointer) (0, 3) = Some (ACon 1)
   \<and> first_cat (scan_game LaserPointer) (lane_ahead (0, 1)) = Some 0
   \<and> con_end_round 0 (scan_game LaserPointer) = distract 0 1 (scan_game LaserPointer)
   \<and> observe (\<lambda>s. map attention (cats s)) (con_end_round 0 (scan_game LaserPointer))
       = Some [3, 4]
   \<and> con_end_round 0 (scan_game BallThrower) = distract 0 1 (scan_game BallThrower)
   \<and> observe (\<lambda>s. map attention (cats s)) (con_end_round 0 (scan_game BallThrower))
       = Some [3, 4]
   \<and> con_end_round 0 (scan_game TripleLaserPointer)
       = and_then (distract 0 1 (scan_game TripleLaserPointer))
           (distract_first (lane_ahead (1, 1)))
   \<and> observe (\<lambda>s. map attention (cats s)) (con_end_round 0 (scan_game TripleLaserPointer))
       = Some [3, 3]
   \<and> con_end_round 0 (scan_game ColorfulBallThrower)
       = distract 0 1 (scan_game ColorfulBallThrower)
   \<and> observe (\<lambda>s. (map attention (cats s), balls s))
         (con_end_round 0 (scan_game ColorfulBallThrower))
       = Some ([3, 4], [])
   \<and> con_end_round 0 throw_game = new_ball_teleport (0, 3) throw_game
   \<and> observe (\<lambda>s. (board s (0, 2), board s (0, 3), board s (0, 4), balls s))
         (con_end_round 0 throw_game)
       = Some (None, Some (ABall 0), Some (ACon 1), [Some (0, 3)])"
proof -
  have h: "con_tile (heap (scan_game k) ! 0) = Some (0, 1)" for k
    by (simp add: scan_game_def empty_game_def new_contraption_def)
  have k: "ckind (heap (scan_game k) ! 0) = k" for k
    by (simp add: scan_game_def empty_game_def new_contraption_def)
  have b: "board (scan_game LaserPointer) (0, 3) = Some (ACon 1)"
    by (simp add: scan_game_def empty_game_def)
  have f: "first_cat (scan_game k) (lane_ahead (0, 1)) = Some 0"
    "first_cat (scan_game k) (take 3 (lane_ahead (0, 1))) = Some 0" for k
    by (simp_all add: scan_game_def empty_game_def lane_ahead_def LANE_WIDTH_def upt_rec)
  have l: "lane_count (scan_game k) = 2" for k
    by (simp add: scan_game_def empty_game_def)
  have ht: "con_tile (heap throw_game ! 0) = Some (0, 1)"
    "ckind (heap throw_game ! 0) = ColorfulBallThrower"
    by (simp_all add: throw_game_def empty_game_def new_contraption_def)
  have ft: "first_cat throw_game (take 3 (lane_ahead (0, 1))) = None"
    "furthest_empty throw_game (take 3 (lane_ahead (0, 1))) = Some (0, 3)"
    by (simp_all add: throw_game_def empty_game_def lane_ahead_def LANE_WIDTH_def upt_rec
        furthest_empty_def is_empty_def)
  have laser: "con_end_round 0 (scan_game LaserPointer) = distract 0 1 (scan_game LaserPointer)"
    using scans_stop_at_first_cat [OF h [of LaserPointer]] k [of LaserPointer] f by simp
  have thrower: "con_end_round 0 (scan_game BallThrower) = distract 0 1 (scan_game BallThrower)"
    using scans_stop_at_first_cat [OF h [of BallThrower]] k [of BallThrower] f by simp
  have triple: "con_end_round 0 (scan_game TripleLaserPointer)
       = and_then (distract 0 1 (scan_game TripleLaserPointer))
           (distract_first (lane_ahead (1, 1)))"
  proof -
    have d: "distract_first (lane_ahead (0, 1)) (scan_game TripleLaserPointer)
        = distract 0 1 (scan_game TripleLaserPointer)"
      using f(1) [of TripleLaserPointer] by (simp add: distract_first_def)
    show ?thesis
      using scans_stop_at_first_cat [OF h [of TripleLaserPointer]] k [of TripleLaserPointer]
        l [of TripleLaserPointer] d
      by simp
  qed
  have colorful: "con_end_round 0 (scan_game ColorfulBallThrower)
       = distract 0 1 (scan_game ColorfulBallThrower)"
    using scans_stop_at_first_cat [OF h [of ColorfulBallThrower]] k [of ColorfulBallThrower] f
    by simp
  have throw: "con_end_round 0 throw_game = new_ball_teleport (0, 3) throw_game"
    using scans_stop_at_first_cat [OF ht(1)] ht(2) ft by simp
  have e1: "observe (\<lambda>s. map attention (cats s)) (con_end_round 0 (scan_game LaserPointer))
       = Some [3, 4]"
    by code_simp
  have e2: "observe (\<lambda>s. map attention (cats s)) (con_end_round 0 (scan_game BallThrower))
       = Some [3, 4]"
    by code_simp
  have e3: "observe (\<lambda>s. map attention (cats s)) (con_end_round 0 (scan_game TripleLaserPointer))
       = Some [3, 3]"
    by code_simp
  have e4: "observe (\<lambda>s. (map attention (cats s), balls s))
         (con_end_round 0 (scan_game ColorfulBallThrower))
       = Some ([3, 4], [])"
    by code_simp
  have e5: "observe (\<lambda>s. (board s (0, 2), board s (0, 3), board s (0, 4), balls s))
         (con_end_round 0 throw_game)
       = Some (None, Some (ABall 0), Some (ACon 1), [Some (0, 3)])"
    by code_simp
  show ?thesis
    using h [of LaserPointer] b f(1) [of LaserPointer] laser e1 thrower e2 triple e3 colorful e4
      throw e5
    by (intro conjI)
qed

lemma contraptions_loop_trace:
  "contraptions_loop js s = Inr s2 \<Longrightarrow>
   \<exists>d. d 0 = s \<and> d (length js) = s2
     \<and> (\<forall>k < length js. con_end_round (js ! k) (d k) = Inr (d (Suc k)))
     \<and> (\<forall>k \<le> length js. device_frame s (d k))"
proof (induction js arbitrary: s)
  case Nil
  then show ?case by (intro exI [of _ "\<lambda>k. s"]) simp
next
  case (Cons j js)
  then obtain s1 where s1: "con_end_round j s = Inr s1" and r: "contraptions_loop js s1 = Inr s2"
    by (auto simp: and_then_eq_Inr)
  from Cons.IH [OF r] obtain d' where d': "d' 0 = s1" "d' (length js) = s2"
    "\<forall>k < length js. con_end_round (js ! k) (d' k) = Inr (d' (Suc k))"
    "\<forall>k \<le> length js. device_frame s1 (d' k)"
    by blast
  let ?d = "\<lambda>k. case k of 0 \<Rightarrow> s | Suc k' \<Rightarrow> d' k'"
  have f1: "device_frame s s1" using s1 by (rule con_end_round_frame)
  have a: "con_end_round ((j # js) ! k) (?d k) = Inr (?d (Suc k))" if "k < length (j # js)" for k
    using that s1 d'(1,3) by (cases k) simp_all
  have b: "device_frame s (?d k)" if "k \<le> length (j # js)" for k
    using that d'(4) f1 device_frame_trans [OF f1] by (cases k) simp_all
  show ?case
    using a b d'(2) by (intro exI [of _ ?d]) simp
qed

lemma units_pass_trace:
  "units_pass draw is s = Inr s3 \<Longrightarrow> \<not> game_ended s \<Longrightarrow>
   \<exists>u m. u 0 = s \<and> u m = s3 \<and> m \<le> length is
     \<and> (\<forall>k < m. \<not> game_ended (u k)
            \<and> cat_end_round (is ! k) (draw (is ! k)) (u k) = Inr (u (Suc k)))
     \<and> (m < length is \<longrightarrow> game_ended (u m))"
proof (induction "is" arbitrary: s)
  case Nil
  then show ?case by (intro exI [of _ "\<lambda>k. s"] exI [of _ 0]) simp
next
  case (Cons i "is")
  then obtain s1 where s1: "cat_end_round i (draw i) s = Inr s1"
    and r: "(if game_ended s1 then Inr s1 else units_pass draw is s1) = Inr s3"
    by (auto simp: and_then_eq_Inr)
  show ?case
  proof (cases "game_ended s1")
    case True
    then have e: "s3 = s1" using r by simp
    let ?u = "\<lambda>k. case k of 0 \<Rightarrow> s | Suc k' \<Rightarrow> s1"
    show ?thesis
      using s1 True e Cons.prems(2)
      by (intro exI [of _ ?u] exI [of _ "Suc 0"]) simp
  next
    case False
    then have "units_pass draw is s1 = Inr s3" using r by simp
    from Cons.IH [OF this False] obtain u' m' where u': "u' 0 = s1" "u' m' = s3" "m' \<le> length is"
      "\<forall>k < m'. \<not> game_ended (u' k)
            \<and> cat_end_round (is ! k) (draw (is ! k)) (u' k) = Inr (u' (Suc k))"
      "m' < length is \<longrightarrow> game_ended (u' m')"
      by blast
    let ?u = "\<lambda>k. case k of 0 \<Rightarrow> s | Suc k' \<Rightarrow> u' k'"
    have a: "\<not> game_ended (?u k)
            \<and> cat_end_round ((i # is) ! k) (draw ((i # is) ! k)) (?u k) = Inr (?u (Suc k))"
      if "k < Suc m'" for k
      using that s1 u'(1,4) Cons.prems(2) by (cases k) simp_all
    show ?thesis
      using a u'(2,3,5) by (intro exI [of _ ?u] exI [of _ "Suc m'"]) simp
  qed
qed

text \<open>
  Claim C1. A round of a running game (\<^verbatim>\<open>GameManager.end_round\<close> that returns), with the
  round counter below the win threshold as it is in every running game, passes through the
  games \<open>d 0\<close>, \<open>d 1\<close>, ... and \<open>u 0\<close>, \<open>u 1\<close>, ... as follows. First the batteries
  grow by exactly 1 and nothing else changes (\<open>d 0\<close>). Then \<^verbatim>\<open>end_round\<close> of the
  \<open>k\<close>-th contraption of the registry takes \<open>d k\<close> to \<open>d (k + 1)\<close>, for every position
  \<open>k\<close> of the registry in turn; the registry lists the contraptions in the order in which
  they were registered, and these calls leave it as it is. Then \<^verbatim>\<open>end_round\<close> of the
  cat \<open>k\<close> takes \<open>u k\<close> to \<open>u (k + 1)\<close>, for the first \<open>m\<close> cats in the order of
  their creation: for all of them, or up to and including the first cat that ends the game.
  None of this changes the round counter. If the game has ended the round ends there;
  otherwise the counter grows by 1 and the game is won exactly when the counter is then 40.
\<close>

theorem end_round_order:
  assumes "end_round draw s = Inr s'" and "\<not> game_ended s" and "rounds s < WIN_ROUND"
  shows "\<exists>d u m.
           d 0 = s\<lparr>batteries := batteries s + 1\<rparr>
         \<and> (\<forall>k < length (contraptions s).
               con_end_round (contraptions s ! k) (d k) = Inr (d (Suc k)))
         \<and> (\<forall>k \<le> length (contraptions s). contraptions (d k) = contraptions s)
         \<and> (\<forall>j. contraptions (add_contraption j s) = contraptions s @ [j])
         \<and> u 0 = d (length (contraptions s))
         \<and> m \<le> length (cats s)
         \<and> (\<forall>k < m. \<not> game_ended (u k) \<and> cat_end_round k (draw k) (u k) = Inr (u (Suc k)))
         \<and> (m < length (cats s) \<longrightarrow> game_ended (u m))
         \<and> rounds (u m) = rounds s
         \<and> (if game_ended (u m) then s' = u m
             else rounds s' = rounds s + 1
                  \<and> game_ended s' = (rounds s' = WIN_ROUND)
                  \<and> s' = (if rounds s + 1 = WIN_ROUND then won ((u m)\<lparr>rounds := rounds s + 1\<rparr>)
                           else (u m)\<lparr>rounds := rounds s + 1\<rparr>))"
proof -
  let ?s1 = "s\<lparr>batteries := batteries s + 1\<rparr>"
  let ?n = "length (contraptions s)"
  have add: "add_batteries 1 s = Inr ?s1"
    using assms(1)
    by (auto simp: end_round_def add_batteries_def update_battery_text_def split: if_splits)
  then obtain s2 where s2: "contraptions_loop (contraptions s) ?s1 = Inr s2"
    and loop: "cats_loop draw [0..<length (cats s2)] s2 = Inr s'"
    using assms(1) by (auto simp: end_round_def and_then_eq_Inr)
  from contraptions_loop_trace [OF s2]
  obtain d where d: "d 0 = ?s1" "d ?n = s2"
    "\<forall>k < ?n. con_end_round (contraptions s ! k) (d k) = Inr (d (Suc k))"
    "\<forall>k \<le> ?n. device_frame ?s1 (d k)"
    by blast
  have reg: "\<forall>k \<le> ?n. contraptions (d k) = contraptions s"
    using d(4) by (simp add: device_frame_def)
  have f2: "device_frame ?s1 s2" using d(2,4) by auto
  then have same: "length (cats s2) = length (cats s)" "\<not> game_ended s2" "rounds s2 = rounds s"
    using assms(2) by (simp_all add: device_frame_def unit_frame_def)
  from loop same obtain s3 where s3: "units_pass draw [0..<length (cats s)] s2 = Inr s3"
    and fin: "(if game_ended s3 then Inr s3 else increment_round s3) = Inr s'"
    by (auto simp: cats_loop_units_pass and_then_eq_Inr)
  from units_pass_trace [OF s3 same(2)]
  obtain u m where u: "u 0 = s2" "u m = s3" "m \<le> length (cats s)"
    "\<forall>k < m. \<not> game_ended (u k)
        \<and> cat_end_round ([0..<length (cats s)] ! k) (draw ([0..<length (cats s)] ! k)) (u k)
            = Inr (u (Suc k))"
    "m < length (cats s) \<longrightarrow> game_ended (u m)"
    by auto
  have pass: "\<forall>k < m. \<not> game_ended (u k) \<and> cat_end_round k (draw k) (u k) = Inr (u (Suc k))"
  proof (intro allI impI)
    fix k assume k: "k < m"
    then have "[0..<length (cats s)] ! k = k" using u(3) by simp
    then show "\<not> game_ended (u k) \<and> cat_end_round k (draw k) (u k) = Inr (u (Suc k))"
      using u(4) k by auto
  qed
  have r3: "rounds s3 = rounds s"
    using units_pass_frame [OF s3] same(3) by (simp add: unit_frame_def)
  have last: "if game_ended s3 then s' = s3
             else rounds s' = rounds s + 1
                  \<and> game_ended s' = (rounds s' = WIN_ROUND)
                  \<and> s' = (if rounds s + 1 = WIN_ROUND then won (s3\<lparr>rounds := rounds s + 1\<rparr>)
                           else s3\<lparr>rounds := rounds s + 1\<rparr>)"
  proof (cases "game_ended s3")
    case True
    then show ?thesis using fin by simp
  next
    case False
    then have inc: "increment_round s3 = Inr s'" using fin by simp
    have eq: "s' = (if rounds s + 1 = WIN_ROUND then won (s3\<lparr>rounds := rounds s + 1\<rparr>)
                           else s3\<lparr>rounds := rounds s + 1\<rparr>)"
      using increment_round_result [OF inc] assms(3) r3 by simp
    then have "rounds s' = rounds s + 1" "game_ended s' = (rounds s' = WIN_ROUND)"
      using False by (auto simp: won_def)
    then show ?thesis using False eq by simp
  qed
  have registered: "\<forall>j. contraptions (add_contraption j s) = contraptions s @ [j]"
    by (simp add: add_contraption_def)
  have u0: "u 0 = d ?n" using u(1) d(2) by simp
  show ?thesis
    apply (rule exI [of _ d], rule exI [of _ u], rule exI [of _ m])
    using d(1,3) reg registered u0 u(3) pass u(5) r3 last unfolding u(2) [symmetric]
    by (intro conjI)
qed

theorem end_round_order_witness:
  "\<not> game_ended (order_game 39) \<and> rounds (order_game 39) < WIN_ROUND
   \<and> (\<exists>s' (d :: nat \<Rightarrow> game) (u :: nat \<Rightarrow> game).
         end_round first_lane (order_game 39) = Inr s'
         \<and> d 0 = (order_game 39)\<lparr>batteries := batteries (order_game 39) + 1\<rparr>
         \<and> batteries (d 0) = 9
         \<and> con_end_round 0 (d 0) = Inr (d 1)
         \<and> (map cat_tile (cats (d 1)), map attention (cats (d 1)))
             = ([Some (0, 5), Some (1, 6)], [4, 4])
         \<and> con_end_round 1 (d 1) = Inr (d 2)
         \<and> (map cat_tile (cats (d 2)), map attention (cats (d 2)))
             = ([Some (0, 5), Some (1, 6)], [3, 4])
         \<and> con_end_round 2 (d 2) = Inr (d 3)
         \<and> batteries (d 3) = 10
         \<and> u 0 = d 3
         \<and> cat_end_round 0 (first_lane 0) (u 0) = Inr (u 1)
         \<and> cat_end_round 1 (first_lane 1) (u 1) = Inr (u 2)
         \<and> s' = won ((u 2)\<lparr>rounds := 40\<rparr>)
         \<and> (rounds s', game_ended s', initialized s', batteries s', printed s',
              map cat_tile (cats s'), map attention (cats s'))
             = (40, True, False, 10, [''You win!''], [Some (0, 4), Some (1, 5)], [3, 4]))
   \<and> observe (\<lambda>s. (rounds s, game_ended s, batteries s, printed s))
         (end_round first_lane (order_game 2)) = Some (3, False, 10, [])
   \<and> observe (\<lambda>s. (rounds s, game_ended s, batteries s, printed s))
         (end_round first_lane goal_game) = Some (0, True, 9, [''You lose!''])"
proof -
  let ?g = "order_game 39"
  let ?g1 = "?g\<lparr>batteries := batteries ?g + 1\<rparr>"
  have h: "\<not> game_ended ?g" "rounds ?g < WIN_ROUND"
    by (simp_all add: order_game_def empty_game_def WIN_ROUND_def)
  have g: "contraptions ?g = [0, 1, 2]" "length (cats ?g) = 2" "rounds ?g = 39" "batteries ?g = 8"
    by (simp_all add: order_game_def empty_game_def)
  have ev: "observe (\<lambda>s. (rounds s, game_ended s, initialized s, batteries s, printed s,
              map cat_tile (cats s), map attention (cats s)))
          (end_round first_lane ?g)
        = Some (40, True, False, 10, [''You win!''], [Some (0, 4), Some (1, 5)], [3, 4])"
    by code_simp
  from observe_Some [OF ev]
  obtain s' where s': "end_round first_lane ?g = Inr s'"
    and v: "(rounds s', game_ended s', initialized s', batteries s', printed s',
              map cat_tile (cats s'), map attention (cats s'))
             = (40, True, False, 10, [''You win!''], [Some (0, 4), Some (1, 5)], [3, 4])"
    by (elim exE conjE)
  from end_round_order [OF s' h]
  obtain d u m where d0: "d 0 = ?g1"
    and dev: "\<forall>k < length (contraptions ?g).
               con_end_round (contraptions ?g ! k) (d k) = Inr (d (Suc k))"
    and u0: "u 0 = d (length (contraptions ?g))"
    and m: "m \<le> length (cats ?g)"
    and pass: "\<forall>k < m. \<not> game_ended (u k)
        \<and> cat_end_round k (first_lane k) (u k) = Inr (u (Suc k))"
    and stop: "m < length (cats ?g) \<longrightarrow> game_ended (u m)"
    and rm: "rounds (u m) = rounds ?g"
    and fin: "if game_ended (u m) then s' = u m
             else rounds s' = rounds ?g + 1
                  \<and> game_ended s' = (rounds s' = WIN_ROUND)
                  \<and> s' = (if rounds ?g + 1 = WIN_ROUND then won ((u m)\<lparr>rounds := rounds ?g + 1\<rparr>)
                           else (u m)\<lparr>rounds := rounds ?g + 1\<rparr>)"
    by (elim exE conjE)
  have c0: "con_end_round 0 (d 0) = Inr (d 1)"
    using dev [rule_format, of 0] g(1) by simp
  have c1: "con_end_round 1 (d 1) = Inr (d 2)"
    using dev [rule_format, of 1] g(1) by (simp add: numeral_2_eq_2)
  have c2: "con_end_round 2 (d 2) = Inr (d 3)"
    using dev [rule_format, of 2] g(1) by (simp add: numeral_3_eq_3 numeral_2_eq_2)
  have b0: "batteries (d 0) = 9" using d0 g(4) by simp
  have e1: "observe (\<lambda>s. (map cat_tile (cats s), map attention (cats s)))
          (con_end_round 0 ?g1) = Some ([Some (0, 5), Some (1, 6)], [4, 4])"
    by code_simp
  have v1: "(map cat_tile (cats (d 1)), map attention (cats (d 1)))
             = ([Some (0, 5), Some (1, 6)], [4, 4])"
    using e1 c0 d0 by (simp add: observe_def)
  have e2: "observe (\<lambda>s. (map cat_tile (cats s), map attention (cats s)))
          (and_then (con_end_round 0 ?g1) (con_end_round 1))
        = Some ([Some (0, 5), Some (1, 6)], [3, 4])"
    by code_simp
  have v2: "(map cat_tile (cats (d 2)), map attention (cats (d 2)))
             = ([Some (0, 5), Some (1, 6)], [3, 4])"
    using e2 c0 c1 d0 by (simp add: observe_def)
  have e3: "observe batteries
          (and_then (and_then (con_end_round 0 ?g1) (con_end_round 1)) (con_end_round 2))
        = Some 10"
    by code_simp
  have v3: "batteries (d 3) = 10"
    using e3 c0 c1 c2 d0 by (simp add: observe_def)
  have r': "rounds s' = 40" using v by simp
  have live: "\<not> game_ended (u m)"
  proof
    assume "game_ended (u m)"
    then have "s' = u m" using fin by simp
    then show False using rm r' g(3) by simp
  qed
  then have m2: "m = 2" using stop m g(2) by auto
  have p0: "cat_end_round 0 (first_lane 0) (u 0) = Inr (u 1)"
    using pass [rule_format, of 0] m2 by simp
  have p1: "cat_end_round 1 (first_lane 1) (u 1) = Inr (u 2)"
    using pass [rule_format, of 1] m2 by (simp add: numeral_2_eq_2)
  have u3: "u 0 = d 3" using u0 g(1) by (simp add: numeral_3_eq_3)
  have w: "s' = won ((u 2)\<lparr>rounds := 40\<rparr>)"
    using fin live m2 g(3) by (simp add: WIN_ROUND_def)
  have first: "\<exists>s' (d :: nat \<Rightarrow> game) (u :: nat \<Rightarrow> game).
         end_round first_lane (order_game 39) = Inr s'
         \<and> d 0 = (order_game 39)\<lparr>batteries := batteries (order_game 39) + 1\<rparr>
         \<and> batteries (d 0) = 9
         \<and> con_end_round 0 (d 0) = Inr (d 1)
         \<and> (map cat_tile (cats (d 1)), map attention (cats (d 1)))
             = ([Some (0, 5), Some (1, 6)], [4, 4])
         \<and> con_end_round 1 (d 1) = Inr (d 2)
         \<and> (map cat_tile (cats (d 2)), map attention (cats (d 2)))
             = ([Some (0, 5), Some (1, 6)], [3, 4])
         \<and> con_end_round 2 (d 2) = Inr (d 3)
         \<and> batteries (d 3) = 10
         \<and> u 0 = d 3
         \<and> cat_end_round 0 (first_lane 0) (u 0) = Inr (u 1)
         \<and> cat_end_round 1 (first_lane 1) (u 1) = Inr (u 2)
         \<and> s' = won ((u 2)\<lparr>rounds := 40\<rparr>)
         \<and> (rounds s', game_ended s', initialized s', batteries s', printed s',
              map cat_tile (cats s'), map attention (cats s'))
             = (40, True, False, 10, [''You win!''], [Some (0, 4), Some (1, 5)], [3, 4])"
    using s' d0 b0 c0 v1 c1 v2 c2 v3 u3 p0 p1 w v
    by (intro exI [of _ s'] exI [of _ d] exI [of _ u] conjI)
  have e4: "observe (\<lambda>s. (rounds s, game_ended s, batteries s, printed s))
         (end_round first_lane (order_game 2)) = Some (3, False, 10, [])"
    by code_simp
  have e5: "observe (\<lambda>s. (rounds s, game_ended s, batteries s, printed s))
         (end_round first_lane goal_game) = Some (0, True, 9, [''You lose!''])"
    by code_simp
  show ?thesis using h first e4 e5 by (intro conjI)
qed

lemma above_differs: "above u = Some p \<Longrightarrow> p \<noteq> u"
  by (cases u) (auto split: if_splits)

lemma distract_distracted:
  assumes "i < length (cats s)" "cat_tile (cats s ! i) = Some u" "board s u \<noteq> None"
    "initialized s"
  shows "distract i 1 s = Inr (distracted i s)"
proof (cases "attention (cats s ! i) \<le> 1")
  case True
  then have base: "Cat_distract i 1 s = Inr (distracted i s)"
    using assms
    by (simp add: Cat_distract_def Let_def cat_remove_from_board_def clear_actor_def is_empty_def
        manager_def distracted_def set_cat_tile_def upd_cat_def)
  have "cat_tile (cats (distracted i s) ! i) = None"
    using True assms(1,2) by (simp add: distracted_def)
  then show ?thesis using base by (simp add: distract_def)
next
  case False
  let ?s1 = "upd_cat i (\<lambda>c. c\<lparr>attention := attention c - 1\<rparr>) s"
  have base: "Cat_distract i 1 s = Inr ?s1"
    using False assms(1) by (simp add: Cat_distract_def Let_def)
  have s1: "cat_tile (cats ?s1 ! i) = Some u" "board ?s1 u \<noteq> None" "initialized ?s1"
    "kind (cats ?s1 ! i) = kind (cats s ! i)"
    using assms by simp_all
  show ?thesis
  proof (cases "kind (cats s ! i) = Calico")
    case notc: False
    then show ?thesis using base False assms(2) by (simp add: distract_def distracted_def)
  next
    case calico: True
    show ?thesis
    proof (cases "above u")
      case None
      then show ?thesis
        using base False assms(1,2) calico by (simp add: distract_def distracted_def)
    next
      case (Some p)
      show ?thesis
      proof (cases "board s p")
        case occupied: (Some a)
        then show ?thesis
          using base False assms(1,2) calico Some
          by (simp add: distract_def distracted_def is_empty_def)
      next
        case free: None
        have "cat_teleport i p ?s1 = Inr (stepped i u p ?s1)"
          using s1(1-3) free above_differs [OF Some] by (intro cat_teleport_stepped) simp_all
        then show ?thesis
          using base False assms(1,2) calico Some free
          by (simp add: distract_def distracted_def is_empty_def)
      qed
    qed
  qed
qed

lemma heater_near_range:
  "heater_near s u =
     (\<exists>h. tile_exists (lane_count s) h \<and> within_heater_range u h \<and> holds_heater s (Some h))"
  by (auto simp: heater_near_def list_ex_iff scan_order_set)

lemma check_warmed:
  assumes "i < length (cats s)" "cat_tile (cats s ! i) = Some u" "board s u \<noteq> None"
    "initialized s" "tile_exists (lane_count s) u"
  shows "check_space_heater i s = Inr (warmed i s)"
  using check_space_heater_scan [OF assms(2,5)] distract_distracted [OF assms(1-4)] assms(2)
  by (simp add: warmed_def heater_near_def list_ex_iff)

lemma interact_interacted:
  assumes "j < length (heap s)" "con_tile (heap s ! j) = Some n" "board s n \<noteq> None"
    "initialized s" "j \<in> set (contraptions s)"
  shows "interact j s = Inr (interacted j n s)"
  using assms
  by (auto simp: interact_def Let_def Contraption_interact_def clear_actor_def is_empty_def
      manager_def remove_contraption_def interacted_def set_con_tile_def upd_con_def)

lemma exit_exists: "tile_exists n t \<Longrightarrow> exit t = Some u \<Longrightarrow> tile_exists n u"
  by (cases t) (auto simp: tile_exists_def split: if_splits)

lemma above_exists: "tile_exists n t \<Longrightarrow> above t = Some p \<Longrightarrow> tile_exists n p"
  by (cases t) (auto simp: tile_exists_def split: if_splits)

lemma above_exit_differs: "exit t = Some n \<Longrightarrow> above n = Some p \<Longrightarrow> p \<noteq> t \<and> p \<noteq> n"
  by (cases t) (auto split: if_splits)

lemma stepped_fields [simp]:
  "cats (stepped i t n s) = (cats s)[i := (cats s ! i)\<lparr>cat_tile := Some n\<rparr>]"
  "board (stepped i t n s) = (board s)(t := None, n := Some (ACat i))"
  "heap (stepped i t n s) = heap s"
  "balls (stepped i t n s) = balls s"
  "contraptions (stepped i t n s) = contraptions s"
  "lane_count (stepped i t n s) = lane_count s"
  "initialized (stepped i t n s) = initialized s"
  by (simp_all add: stepped_def)

lemma distracted_frame [simp]:
  "length (cats (distracted i s)) = length (cats s)"
  "heap (distracted i s) = heap s"
  "lane_count (distracted i s) = lane_count s"
  "initialized (distracted i s) = initialized s"
  by (simp_all add: distracted_def split: option.splits)

lemma distracted_attention:
  assumes "i < length (cats s)" "cat_tile (cats s ! i) = Some u" "1 \<le> attention (cats s ! i)"
  shows "attention (cats (distracted i s) ! i) = attention (cats s ! i) - 1"
  using assms by (auto simp: distracted_def split: option.splits)

lemma distracted_kind:
  assumes "i < length (cats s)"
  shows "kind (cats (distracted i s) ! i) = kind (cats s ! i)"
  using assms by (auto simp: distracted_def split: option.splits)

lemma distracted_landing:
  assumes "i < length (cats s)" "cat_tile (cats s ! i) = Some u" "2 \<le> attention (cats s ! i)"
    "board s u \<noteq> None"
  shows "cat_tile (cats (distracted i s) ! i) = Some (landing i u s)
       \<and> board (distracted i s) (landing i u s) \<noteq> None"
  using assms by (auto simp: distracted_def landing_def split: option.splits)

lemma landing_exists:
  "tile_exists n u \<Longrightarrow> tile_exists n (landing i u s)"
  using above_exists [of n u] by (auto simp: landing_def split: option.splits if_splits)

lemma holds_heater_stepped:
  assumes "\<not> holds_heater s (Some t)" "\<not> holds_heater s (Some n)"
  shows "holds_heater (stepped i t n s) (Some h) = holds_heater s (Some h)"
  using assms by (auto simp: holds_heater_def split: option.splits actor.splits)

lemma holds_heater_distracted:
  assumes "cat_tile (cats s ! i) = Some u" "board s u = Some (ACat i)"
  shows "holds_heater (distracted i s) (Some h) = holds_heater s (Some h)"
  using assms
  by (auto simp: distracted_def holds_heater_def split: option.splits actor.splits if_splits)

lemma heater_near_stepped:
  assumes "\<not> holds_heater s (Some t)" "\<not> holds_heater s (Some n)"
  shows "heater_near (stepped i t n s) u = heater_near s u"
  using holds_heater_stepped [OF assms] by (simp add: heater_near_def)

lemma heater_near_distracted:
  assumes "cat_tile (cats s ! i) = Some u" "board s u = Some (ACat i)"
  shows "heater_near (distracted i s) x = heater_near s x"
  using holds_heater_distracted [OF assms] by (simp add: heater_near_def)

lemma warmed_attention:
  assumes "i < length (cats s)" "cat_tile (cats s ! i) = Some u" "1 \<le> attention (cats s ! i)"
  shows "attention (cats (warmed i s) ! i)
         = attention (cats s ! i) - (if heater_near s u then 1 else 0)"
  using assms distracted_attention [OF assms] by (simp add: warmed_def)

lemma move_empty_result:
  assumes "i < length (cats s)" "cat_tile (cats s ! i) = Some t" "board s t \<noteq> None"
    "initialized s" "tile_exists (lane_count s) t" "exit t = Some n" "board s n = None"
  shows "move i s = Inr (warmed i (stepped i t n s))"
proof -
  let ?s1 = "stepped i t n s"
  have tp: "cat_teleport i n s = Inr ?s1"
    using assms(2,3,4,7) exit_differs [OF assms(6)] by (intro cat_teleport_stepped)
  have "check_space_heater i ?s1 = Inr (warmed i ?s1)"
    using assms(1,4) exit_exists [OF assms(5,6)] by (intro check_warmed [of _ _ n]) simp_all
  then show ?thesis
    using tp assms(7) unfolding move_ahead [OF assms(2,6)] by (simp add: is_ball_def is_empty_def)
qed

lemma move_ball_result:
  assumes "i < length (cats s)" "cat_tile (cats s ! i) = Some t" "board s t \<noteq> None"
    "initialized s" "tile_exists (lane_count s) t" "exit t = Some n" "is_ball (board s n)"
    "2 \<le> attention (cats s ! i)"
  shows "move i s = Inr (warmed i (distracted i (stepped i t n s)))"
proof -
  let ?s1 = "stepped i t n s"
  let ?s2 = "distracted i ?s1"
  have occ: "board s n \<noteq> None" using assms(7) by (cases "board s n") (simp_all add: is_ball_def)
  have pick: "and_then (clear_actor n s) (cat_teleport i n) = Inr ?s1"
    using assms(2,3,4) occ exit_differs [OF assms(6)] by (intro pick_up_stepped)
  have s1: "i < length (cats ?s1)" "cat_tile (cats ?s1 ! i) = Some n" "board ?s1 n \<noteq> None"
    "initialized ?s1" "2 \<le> attention (cats ?s1 ! i)"
    using assms(1,4,8) by simp_all
  have d: "distract i 1 ?s1 = Inr ?s2"
    using s1(1-4) by (rule distract_distracted)
  have land: "cat_tile (cats ?s2 ! i) = Some (landing i n ?s1)"
    "board ?s2 (landing i n ?s1) \<noteq> None"
    using distracted_landing [OF s1(1,2,5,3)] by simp_all
  have "tile_exists (lane_count ?s2) (landing i n ?s1)"
    using exit_exists [OF assms(5,6)] landing_exists by simp
  then have c: "check_space_heater i ?s2 = Inr (warmed i ?s2)"
    using s1(1,4) land by (intro check_warmed [of _ _ "landing i n ?s1"]) simp_all
  have "and_then (clear_actor n s) (\<lambda>s1.
                   and_then (cat_teleport i n s1) (\<lambda>s2.
                     and_then (distract i 1 s2) (check_space_heater i)))
            = and_then (and_then (clear_actor n s) (cat_teleport i n)) (\<lambda>s2.
                     and_then (distract i 1 s2) (check_space_heater i))"
    by (cases "clear_actor n s") simp_all
  then show ?thesis
    using pick d c assms(7) unfolding move_ahead [OF assms(2,6)] by simp
qed

lemma landing_stepped:
  assumes "exit t = Some n" "i < length (cats s)"
  shows "landing i n (stepped i t n s) = landing i n s"
  using assms above_exit_differs [OF assms(1)]
  by (auto simp: landing_def split: option.splits)

text \<open>
  Claim C2 fails as stated for the ball: after \<open>dodge_script\<close> a tabby with an
  attention of 4 stands on (1, 4), a ball lies on the tile ahead and a space heater stands
  two tiles further. The tabby's \<^verbatim>\<open>end_round\<close> (one move) picks the ball up and takes
  2 from its attention, not 1: the passive-range check that ends the move finds the heater.
\<close>

theorem ball_pickup_near_heater_takes_two:
  "observe (\<lambda>s. (map cat_tile (cats s), map attention (cats s), board s (1, 3), board s (1, 1),
       map ckind (heap s)))
     (play 2 [(Tabby, 1)] dodge_script)
     = Some ([Some (1, 4)], [4], Some (ABall 0), Some (ACon 1),
         [ColorfulBallThrower, SpaceHeater])
   \<and> observe (\<lambda>s. (map cat_tile (cats s), map attention (cats s), board s (1, 3)))
     (and_then (play 2 [(Tabby, 1)] dodge_script) (move 0))
     = Some ([Some (1, 3)], [2], Some (ACat 0))
   \<and> observe (\<lambda>s. (map cat_tile (cats s), map attention (cats s), board s (1, 3)))
     (play 2 [(Tabby, 1)] (dodge_script @ [EndTurn second_lane]))
     = Some ([Some (1, 3)], [2], Some (ACat 0))"
  by code_simp

text \<open>
  Claim C2, amended. One move of a cat that is on a tile of the board, while the game runs,
  returns the game described by the first of these that applies. No tile ahead: the game is
  lost and nothing else changes. A ball ahead, for a cat with an attention of at least 2: the
  cat stands on that tile and the ball is gone from it (\<open>stepped\<close>), the cat is then
  distracted by 1 (\<open>distracted\<close>: 1 less attention, and a calico moves on to the tile
  above when that is empty), and the passive-range check follows from where the cat then
  stands (\<open>warmed\<close>: one more distraction by 1 if a space heater is in reach, which can
  take the cat off the board). An empty tile ahead: the cat stands on it and the
  passive-range check follows. A contraption ahead that is registered and on that tile: the
  contraption's interaction (\<open>interacted\<close>), which changes no cat. Another cat ahead:
  nothing changes.
\<close>

theorem move_priorities:
  assumes "i < length (cats s)" and "cat_tile (cats s ! i) = Some t"
    and "board s t = Some (ACat i)" and "initialized s" and "tile_exists (lane_count s) t"
  shows "(exit t = None \<longrightarrow> move i s = Inr (lost s))
       \<and> (\<forall>n. exit t = Some n \<longrightarrow>
            (case board s n of
               Some (ABall b) \<Rightarrow>
                 2 \<le> attention (cats s ! i) \<longrightarrow>
                 move i s = Inr (warmed i (distracted i (stepped i t n s)))
             | None \<Rightarrow> move i s = Inr (warmed i (stepped i t n s))
             | Some (ACon j) \<Rightarrow>
                 j < length (heap s) \<and> con_tile (heap s ! j) = Some n
                 \<and> j \<in> set (contraptions s) \<longrightarrow>
                 move i s = Inr (interacted j n s) \<and> cats (interacted j n s) = cats s
             | Some (ACat k) \<Rightarrow> move i s = Inr s))"
proof -
  have occupied: "board s t \<noteq> None" using assms(3) by simp
  have goal: "exit t = None \<longrightarrow> move i s = Inr (lost s)"
    using assms(2,4) lose_game_lost by (simp add: move_def)
  have ahead: "(case board s n of
               Some (ABall b) \<Rightarrow>
                 2 \<le> attention (cats s ! i) \<longrightarrow>
                 move i s = Inr (warmed i (distracted i (stepped i t n s)))
             | None \<Rightarrow> move i s = Inr (warmed i (stepped i t n s))
             | Some (ACon j) \<Rightarrow>
                 j < length (heap s) \<and> con_tile (heap s ! j) = Some n
                 \<and> j \<in> set (contraptions s) \<longrightarrow>
                 move i s = Inr (interacted j n s) \<and> cats (interacted j n s) = cats s
             | Some (ACat k) \<Rightarrow> move i s = Inr s)" if n: "exit t = Some n" for n
  proof (cases "board s n")
    case None
    then show ?thesis
      using move_empty_result [OF assms(1,2) occupied assms(4,5) n] by simp
  next
    case (Some a)
    show ?thesis
    proof (cases a)
      case (ACat k)
      then show ?thesis
        using Some unfolding move_ahead [OF assms(2) n] by (simp add: is_ball_def is_empty_def)
    next
      case (ACon j)
      have mv: "move i s = interact j s"
        using Some ACon unfolding move_ahead [OF assms(2) n]
        by (simp add: is_ball_def is_empty_def)
      have "interact j s = Inr (interacted j n s)"
        if "j < length (heap s)" "con_tile (heap s ! j) = Some n" "j \<in> set (contraptions s)"
        using that Some assms(4) by (intro interact_interacted) simp_all
      moreover have "cats (interacted j n s) = cats s"
        by (simp add: interacted_def)
      ultimately show ?thesis using mv Some ACon by simp
    next
      case (ABall b)
      have "is_ball (board s n)" using Some ABall by (simp add: is_ball_def)
      then show ?thesis
        using move_ball_result [OF assms(1,2) occupied assms(4,5) n] Some ABall by simp
    qed
  qed
  show ?thesis using goal ahead by blast
qed

theorem move_priorities_witness:
  "0 < length (cats (dodge_game Tabby))
   \<and> cat_tile (cats (dodge_game Tabby) ! 0) = Some (1, 4)
   \<and> board (dodge_game Tabby) (1, 4) = Some (ACat 0)
   \<and> initialized (dodge_game Tabby)
   \<and> tile_exists (lane_count (dodge_game Tabby)) (1, 4)
   \<and> move 0 (dodge_game Tabby)
       = Inr (warmed 0 (distracted 0 (stepped 0 (1, 4) (1, 3) (dodge_game Tabby))))
   \<and> observe (\<lambda>s. (map cat_tile (cats s), map attention (cats s), board s (1, 3), board s (1, 4)))
         (move 0 (dodge_game Tabby))
       = Some ([Some (1, 3)], [2], Some (ACat 0), None)
   \<and> move 0 (ahead_game (Some (ABall 0)))
       = Inr (warmed 0 (distracted 0 (stepped 0 (0, 4) (0, 3) (ahead_game (Some (ABall 0))))))
   \<and> observe (\<lambda>s. (map cat_tile (cats s), map attention (cats s), board s (0, 3), board s (0, 4)))
         (move 0 (ahead_game (Some (ABall 0))))
       = Some ([Some (0, 3)], [3], Some (ACat 0), None)
   \<and> move 0 (ahead_game None) = Inr (warmed 0 (stepped 0 (0, 4) (0, 3) (ahead_game None)))
   \<and> observe (\<lambda>s. (map cat_tile (cats s), map attention (cats s), board s (0, 3), board s (0, 4)))
         (move 0 (ahead_game None))
       = Some ([Some (0, 3)], [4], Some (ACat 0), None)
   \<and> move 0 (ahead_game (Some (ACon 0)))
       = Inr (interacted 0 (0, 3) (ahead_game (Some (ACon 0))))
   \<and> observe (\<lambda>s. (map cat_tile (cats s), map uses (heap s), board s (0, 3)))
         (move 0 (ahead_game (Some (ACon 0))))
       = Some ([Some (0, 4)], [4], Some (ACon 0))
   \<and> move 0 (ahead_game (Some (ACat 1))) = Inr (ahead_game (Some (ACat 1)))
   \<and> move 0 goal_game = Inr (lost goal_game)"
proof -
  have h: "0 < length (cats (ahead_game a))" "cat_tile (cats (ahead_game a) ! 0) = Some (0, 4)"
    "board (ahead_game a) (0, 4) = Some (ACat 0)" "initialized (ahead_game a)"
    "tile_exists (lane_count (ahead_game a)) (0, 4)" for a
    by (simp_all add: ahead_game_def empty_game_def tile_exists_def LANE_WIDTH_def)
  have g: "0 < length (cats goal_game)" "cat_tile (cats goal_game ! 0) = Some (0, 0)"
    "board goal_game (0, 0) = Some (ACat 0)" "initialized goal_game"
    "tile_exists (lane_count goal_game) (0, 0)"
    by (simp_all add: goal_game_def empty_game_def tile_exists_def LANE_WIDTH_def)
  have d: "0 < length (cats (dodge_game Tabby))"
    "cat_tile (cats (dodge_game Tabby) ! 0) = Some (1, 4)"
    "board (dodge_game Tabby) (1, 4) = Some (ACat 0)" "initialized (dodge_game Tabby)"
    "tile_exists (lane_count (dodge_game Tabby)) (1, 4)"
    by (simp_all add: dodge_game_def empty_game_def tile_exists_def LANE_WIDTH_def)
  have ahead: "exit (0, 4) = Some (0, 3)" "exit (1, 4) = Some (1, 3)" "exit (0, 0) = None"
    by simp_all
  have b: "board (ahead_game a) (0, 3) = a" for a
    by (simp add: ahead_game_def empty_game_def)
  have a4: "attention (cats (ahead_game a) ! 0) = 4" for a
    by (simp add: ahead_game_def empty_game_def)
  have reg: "0 < length (heap (ahead_game (Some (ACon 0))))"
    "con_tile (heap (ahead_game (Some (ACon 0))) ! 0) = Some (0, 3)"
    "0 \<in> set (contraptions (ahead_game (Some (ACon 0))))"
    by (simp_all add: ahead_game_def empty_game_def new_contraption_def)
  have db: "board (dodge_game Tabby) (1, 3) = Some (ABall 0)"
    "attention (cats (dodge_game Tabby) ! 0) = 4"
    by (simp_all add: dodge_game_def empty_game_def)
  note th = move_priorities [OF h, THEN conjunct2, rule_format, OF ahead(1)]
  have heated: "move 0 (dodge_game Tabby)
       = Inr (warmed 0 (distracted 0 (stepped 0 (1, 4) (1, 3) (dodge_game Tabby))))"
    using move_priorities [OF d, THEN conjunct2, rule_format, OF ahead(2)] db by simp
  have ball: "move 0 (ahead_game (Some (ABall 0)))
       = Inr (warmed 0 (distracted 0 (stepped 0 (0, 4) (0, 3) (ahead_game (Some (ABall 0))))))"
    using th [of "Some (ABall 0)"] by (simp add: b a4)
  have empty: "move 0 (ahead_game None) = Inr (warmed 0 (stepped 0 (0, 4) (0, 3) (ahead_game None)))"
    using th [of None] by (simp add: b)
  have device: "move 0 (ahead_game (Some (ACon 0)))
       = Inr (interacted 0 (0, 3) (ahead_game (Some (ACon 0))))"
    using th [of "Some (ACon 0)"] reg by (simp add: b)
  have blocked: "move 0 (ahead_game (Some (ACat 1))) = Inr (ahead_game (Some (ACat 1)))"
    using th [of "Some (ACat 1)"] by (simp add: b)
  have edge: "move 0 goal_game = Inr (lost goal_game)"
    using move_priorities [OF g, THEN conjunct1] ahead(3) by simp
  have e0: "observe (\<lambda>s. (map cat_tile (cats s), map attention (cats s), board s (1, 3), board s (1, 4)))
         (move 0 (dodge_game Tabby))
       = Some ([Some (1, 3)], [2], Some (ACat 0), None)"
    by code_simp
  have e1: "observe (\<lambda>s. (map cat_tile (cats s), map attention (cats s), board s (0, 3), board s (0, 4)))
         (move 0 (ahead_game (Some (ABall 0))))
       = Some ([Some (0, 3)], [3], Some (ACat 0), None)"
    by code_simp
  have e2: "observe (\<lambda>s. (map cat_tile (cats s), map attention (cats s), board s (0, 3), board s (0, 4)))
         (move 0 (ahead_game None))
       = Some ([Some (0, 3)], [4], Some (ACat 0), None)"
    by code_simp
  have e3: "observe (\<lambda>s. (map cat_tile (cats s), map uses (heap s), board s (0, 3)))
         (move 0 (ahead_game (Some (ACon 0))))
       = Some ([Some (0, 4)], [4], Some (ACon 0))"
    by code_simp
  show ?thesis
    using d heated e0 ball e1 empty e2 device e3 blocked edge
    by (intro conjI)
qed

lemma check_space_heater_find:
  assumes "cat_tile (cats s ! i) = Some t" "tile_exists (lane_count s) t"
  shows "check_space_heater i s =
           (case find (\<lambda>h. holds_heater s (Some h)) (scan_order (lane_count s) t) of
              None \<Rightarrow> Inr s
            | Some h \<Rightarrow> distract i 1 s)"
proof -
  let ?near = "\<exists>h \<in> set (scan_order (lane_count s) t). holds_heater s (Some h)"
  have sc: "check_space_heater i s = (if ?near then distract i 1 s else Inr s)"
    using check_space_heater_scan [OF assms] .
  have found: "(find (\<lambda>h. holds_heater s (Some h)) (scan_order (lane_count s) t) = None)
      = (\<not> ?near)"
    by (simp add: find_None_iff Bex_def)
  show ?thesis
  proof (cases "find (\<lambda>h. holds_heater s (Some h)) (scan_order (lane_count s) t)")
    case None
    then show ?thesis using sc found by simp
  next
    case (Some h)
    then have ?near using found by simp
    then show ?thesis using sc Some by simp
  qed
qed

text \<open>
  Claim C6 fails as stated for a calico that picks up a ball: after \<open>dodge_script\<close> the
  calico stands on (1, 4), a ball lies on (1, 3) and a space heater stands on (1, 1), within
  reach of (1, 3). The calico moves onto (1, 3) and picks the ball up, and the distraction of
  the pickup takes it to the lane above before the passive-range check runs: the check looks
  around (0, 3), finds no heater and takes nothing, so the move costs the attention of the
  pickup only. A tabby in the same place stays on (1, 3) and loses 1 more to the heater.
\<close>

theorem calico_dodges_before_the_check:
  "observe (\<lambda>s. (map cat_tile (cats s), map attention (cats s), board s (1, 3),
       holds_heater s (Some (1, 1)), within_heater_range (1, 3) (1, 1),
       within_heater_range (0, 3) (1, 1)))
     (play 2 [(Calico, 1)] dodge_script)
     = Some ([Some (1, 4)], [5], Some (ABall 0), True, True, False)
   \<and> observe (\<lambda>s. (map cat_tile (cats s), map attention (cats s), board s (1, 3)))
     (and_then (play 2 [(Calico, 1)] dodge_script) (move 0))
     = Some ([Some (0, 3)], [4], None)
   \<and> observe (\<lambda>s. (map cat_tile (cats s), map attention (cats s)))
     (and_then (play 2 [(Tabby, 1)] dodge_script) (move 0))
     = Some ([Some (1, 3)], [2])"
  by code_simp

text \<open>
  Claim C6, amended. A move onto an empty tile \<open>n\<close> returns, and the passive-range check
  that ends it takes exactly 1 from the cat's attention when at least one space heater stands
  within reach of \<open>n\<close> and nothing otherwise. A move that picks up a ball from \<open>n\<close>, by
  a cat with an attention of at least 2, returns and takes 1 for the pickup; the check then
  runs from the tile on which the cat stands after that distraction (\<open>n\<close>, or the tile
  above \<open>n\<close> for a calico that found it empty) and takes exactly 1 more when a space heater
  stands within reach of that tile. Within reach of a tile are the tiles of the board on the
  same lane one or two columns away and those on the lanes directly above and below at most
  one column away. Wherever the cat stands, the check looks at them in the order of
  \<open>scan_order\<close> and calls \<^verbatim>\<open>distract(1)\<close> once, at the first that holds a space
  heater, however many do.
\<close>

theorem passive_range_check:
  assumes "i < length (cats s)" and "cat_tile (cats s ! i) = Some t"
    and "board s t = Some (ACat i)" and "initialized s" and "tile_exists (lane_count s) t"
    and "exit t = Some n" and "1 \<le> attention (cats s ! i)"
  shows "(board s n = None \<longrightarrow>
            (\<exists>s'. move i s = Inr s'
               \<and> attention (cats s' ! i)
                   = attention (cats s ! i) - (if heater_near s n then 1 else 0)))
       \<and> (is_ball (board s n) \<and> 2 \<le> attention (cats s ! i) \<longrightarrow>
            (\<exists>s'. move i s = Inr s'
               \<and> attention (cats s' ! i)
                   = attention (cats s ! i) - 1
                       - (if heater_near s (landing i n s) then 1 else 0)))
       \<and> (\<forall>u. heater_near s u =
              (\<exists>h. tile_exists (lane_count s) h \<and> within_heater_range u h
                   \<and> holds_heater s (Some h)))
       \<and> (\<forall>u. set (scan_order (lane_count s) u)
                = {h. tile_exists (lane_count s) h \<and> within_heater_range u h})
       \<and> (\<forall>s1 u. cat_tile (cats s1 ! i) = Some u \<and> tile_exists (lane_count s1) u \<longrightarrow>
              check_space_heater i s1 =
                (case find (\<lambda>h. holds_heater s1 (Some h)) (scan_order (lane_count s1) u) of
                   None \<Rightarrow> Inr s1
                 | Some h \<Rightarrow> distract i 1 s1))"
proof -
  let ?s1 = "stepped i t n s"
  have occupied: "board s t \<noteq> None" using assms(3) by simp
  have cold_t: "\<not> holds_heater s (Some t)"
    using assms(3) by (simp add: holds_heater_def)
  have s1: "i < length (cats ?s1)" "cat_tile (cats ?s1 ! i) = Some n"
    "attention (cats ?s1 ! i) = attention (cats s ! i)" "board ?s1 n = Some (ACat i)"
    using assms(1) by simp_all
  have empty: "\<exists>s'. move i s = Inr s'
               \<and> attention (cats s' ! i)
                   = attention (cats s ! i) - (if heater_near s n then 1 else 0)"
    if free: "board s n = None"
  proof -
    have cold_n: "\<not> holds_heater s (Some n)" using free by (simp add: holds_heater_def)
    have mv: "move i s = Inr (warmed i ?s1)"
      using move_empty_result [OF assms(1,2) occupied assms(4,5,6) free] .
    have "attention (cats (warmed i ?s1) ! i)
        = attention (cats ?s1 ! i) - (if heater_near ?s1 n then 1 else 0)"
      using s1(1,2) assms(7) s1(3) by (intro warmed_attention) simp_all
    then have "attention (cats (warmed i ?s1) ! i)
        = attention (cats s ! i) - (if heater_near s n then 1 else 0)"
      using s1(3) heater_near_stepped [OF cold_t cold_n] by simp
    then show ?thesis using mv by simp
  qed
  have ball: "\<exists>s'. move i s = Inr s'
               \<and> attention (cats s' ! i)
                   = attention (cats s ! i) - 1
                       - (if heater_near s (landing i n s) then 1 else 0)"
    if b: "is_ball (board s n)" and two: "2 \<le> attention (cats s ! i)"
  proof -
    let ?s2 = "distracted i ?s1"
    have cold_n: "\<not> holds_heater s (Some n)"
      using b by (auto simp: holds_heater_def is_ball_def split: option.splits actor.splits)
    have mv: "move i s = Inr (warmed i ?s2)"
      using move_ball_result [OF assms(1,2) occupied assms(4,5,6) b two] .
    have two1: "2 \<le> attention (cats ?s1 ! i)" using two s1(3) by simp
    have occ1: "board ?s1 n \<noteq> None" using s1(4) by simp
    have land: "cat_tile (cats ?s2 ! i) = Some (landing i n s)"
      using distracted_landing [OF s1(1,2) two1 occ1] landing_stepped [OF assms(6,1)] by simp
    have a2: "attention (cats ?s2 ! i) = attention (cats s ! i) - 1"
      using distracted_attention [OF s1(1,2)] two1 s1(3) by simp
    have i2: "i < length (cats ?s2)" using assms(1) by simp
    have "attention (cats (warmed i ?s2) ! i)
        = attention (cats ?s2 ! i) - (if heater_near ?s2 (landing i n s) then 1 else 0)"
      using i2 land a2 two by (intro warmed_attention) simp_all
    moreover have "heater_near ?s2 (landing i n s) = heater_near s (landing i n s)"
      using heater_near_distracted [OF s1(2,4)] heater_near_stepped [OF cold_t cold_n] by simp
    ultimately show ?thesis using mv a2 by simp
  qed
  have scan: "\<forall>s1 u. cat_tile (cats s1 ! i) = Some u \<and> tile_exists (lane_count s1) u \<longrightarrow>
              check_space_heater i s1 =
                (case find (\<lambda>h. holds_heater s1 (Some h)) (scan_order (lane_count s1) u) of
                   None \<Rightarrow> Inr s1
                 | Some h \<Rightarrow> distract i 1 s1)"
    using check_space_heater_find by blast
  show ?thesis
    using empty ball heater_near_range scan_order_set scan by blast
qed

theorem passive_range_check_witness:
  "0 < length (cats heater_game) \<and> cat_tile (cats heater_game ! 0) = Some (0, 4)
   \<and> board heater_game (0, 4) = Some (ACat 0) \<and> initialized heater_game
   \<and> tile_exists (lane_count heater_game) (0, 4) \<and> exit (0, 4) = Some (0, 3)
   \<and> 1 \<le> attention (cats heater_game ! 0)
   \<and> board heater_game (0, 3) = None
   \<and> map (\<lambda>h. holds_heater heater_game (Some h)) [(0, 5), (1, 3), (1, 6)] = [True, True, True]
   \<and> map (within_heater_range (0, 3)) [(0, 5), (1, 3), (1, 6)] = [True, True, False]
   \<and> heater_near heater_game (0, 3)
   \<and> (\<exists>s'. move 0 heater_game = Inr s' \<and> attention (cats s' ! 0) = 3)
   \<and> scan_order (lane_count heater_game) (0, 4)
       = [(0, 5), (0, 6), (0, 3), (0, 2), (1, 4), (1, 5), (1, 3)]
   \<and> find (\<lambda>h. holds_heater heater_game (Some h)) (scan_order (lane_count heater_game) (0, 4))
       = Some (0, 5)
   \<and> check_space_heater 0 heater_game = distract 0 1 heater_game
   \<and> observe (\<lambda>s. map attention (cats s)) (check_space_heater 0 heater_game) = Some [3]
   \<and> landing 0 (1, 3) (dodge_game Tabby) = (1, 3)
   \<and> heater_near (dodge_game Tabby) (1, 3)
   \<and> (\<exists>s'. move 0 (dodge_game Tabby) = Inr s' \<and> attention (cats s' ! 0) = 2)
   \<and> landing 0 (1, 3) (dodge_game Calico) = (0, 3)
   \<and> \<not> heater_near (dodge_game Calico) (0, 3)
   \<and> (\<exists>s'. move 0 (dodge_game Calico) = Inr s' \<and> attention (cats s' ! 0) = 3)"
proof -
  have h: "0 < length (cats heater_game)" "cat_tile (cats heater_game ! 0) = Some (0, 4)"
    "board heater_game (0, 4) = Some (ACat 0)" "initialized heater_game"
    "tile_exists (lane_count heater_game) (0, 4)" "exit (0, 4) = Some (0, 3)"
    "1 \<le> attention (cats heater_game ! 0)"
    by (simp_all add: heater_game_def empty_game_def tile_exists_def LANE_WIDTH_def)
  have d: "0 < length (cats (dodge_game k))" "cat_tile (cats (dodge_game k) ! 0) = Some (1, 4)"
    "board (dodge_game k) (1, 4) = Some (ACat 0)" "initialized (dodge_game k)"
    "tile_exists (lane_count (dodge_game k)) (1, 4)" "exit (1, 4) = Some (1, 3)"
    "1 \<le> attention (cats (dodge_game k) ! 0)" for k
    by (simp_all add: dodge_game_def empty_game_def tile_exists_def LANE_WIDTH_def)
  have free: "board heater_game (0, 3) = None" "attention (cats heater_game ! 0) = 4"
    by (simp_all add: heater_game_def empty_game_def)
  have db: "is_ball (board (dodge_game k) (1, 3))" "attention (cats (dodge_game k) ! 0) = 4" for k
    by (simp_all add: dodge_game_def empty_game_def is_ball_def)
  have e1: "map (\<lambda>h. holds_heater heater_game (Some h)) [(0, 5), (1, 3), (1, 6)]
      = [True, True, True]"
    by code_simp
  have e2: "map (within_heater_range (0, 3)) [(0, 5), (1, 3), (1, 6)] = [True, True, False]"
    by code_simp
  have e3: "heater_near heater_game (0, 3)"
    by code_simp
  have e4: "scan_order (lane_count heater_game) (0, 4)
       = [(0, 5), (0, 6), (0, 3), (0, 2), (1, 4), (1, 5), (1, 3)]"
    by code_simp
  have e5: "find (\<lambda>h. holds_heater heater_game (Some h)) (scan_order (lane_count heater_game) (0, 4))
       = Some (0, 5)"
    by code_simp
  have e6: "observe (\<lambda>s. map attention (cats s)) (check_space_heater 0 heater_game) = Some [3]"
    by code_simp
  have e7: "landing 0 (1, 3) (dodge_game Tabby) = (1, 3)"
    by code_simp
  have e8: "heater_near (dodge_game Tabby) (1, 3)"
    by code_simp
  have e9: "landing 0 (1, 3) (dodge_game Calico) = (0, 3)"
    by code_simp
  have e10: "\<not> heater_near (dodge_game Calico) (0, 3)"
    by code_simp
  note th = passive_range_check [OF h]
  have moved: "\<exists>s'. move 0 heater_game = Inr s' \<and> attention (cats s' ! 0) = 3"
    using th [THEN conjunct1] free e3 by simp
  have checked: "check_space_heater 0 heater_game = distract 0 1 heater_game"
    using th [THEN conjunct2, THEN conjunct2, THEN conjunct2, THEN conjunct2, rule_format,
        of heater_game "(0, 4)"] h(2,5) e5 by simp
  have tabby: "\<exists>s'. move 0 (dodge_game Tabby) = Inr s' \<and> attention (cats s' ! 0) = 2"
    using passive_range_check [OF d, of Tabby, THEN conjunct2, THEN conjunct1]
      db [of Tabby] e7 e8 by simp
  have calico: "\<exists>s'. move 0 (dodge_game Calico) = Inr s' \<and> attention (cats s' ! 0) = 3"
    using passive_range_check [OF d, of Calico, THEN conjunct2, THEN conjunct1]
      db [of Calico] e9 e10 by simp
  show ?thesis
    using h free(1) e1 e2 e3 moved e4 e5 checked e6 e7 e8 tabby e9 e10 calico
    by (intro conjI)
qed

end
